theory Spec2Isabelle
  imports Main
begin

section \<open>JavaScript values\<close>

text \<open>
  The backend passes JavaScript values around: parsed JSON bodies, raw text bodies,
  cached blobs. A value is modelled by the datatype below; an object is the list of
  its own properties in insertion order. Numbers are restricted to integers (HTTP
  status codes are the only numbers the code inspects).
\<close>

datatype jsval =
    JUndefined
  | JNull
  | JBool bool
  | JNum int
  | JStr string
  | JArr "jsval list"
  | JObj "(string \<times> jsval) list"

text \<open>JavaScript truthiness, as used by \<^verbatim>\<open>if (cached)\<close> and \<^verbatim>\<open>sha ? ... : ...\<close>.\<close>

fun truthy :: "jsval \<Rightarrow> bool" where
  "truthy JUndefined = False"
| "truthy JNull = False"
| "truthy (JBool b) = b"
| "truthy (JNum n) = (n \<noteq> 0)"
| "truthy (JStr s) = (s \<noteq> [])"
| "truthy (JArr xs) = True"
| "truthy (JObj kvs) = True"

text \<open>
  An optional string argument (\<^verbatim>\<open>sha\<close>, \<^verbatim>\<open>config.token\<close>, ...): \<open>None\<close> is
  \<^verbatim>\<open>undefined\<close>/\<^verbatim>\<open>null\<close>. Such a value is truthy when it is a non-empty string.
\<close>

fun truthy_str :: "string option \<Rightarrow> bool" where
  "truthy_str None = False"
| "truthy_str (Some s) = (s \<noteq> [])"

text \<open>\<^verbatim>\<open>a || b\<close> on an optional string with a string default.\<close>

fun or_default :: "string option \<Rightarrow> string \<Rightarrow> string" where
  "or_default None d = d"
| "or_default (Some s) d = (if s = [] then d else s)"

text \<open>Setting a property of an object: an existing key keeps its place.\<close>

fun set_prop :: "string \<Rightarrow> 'v \<Rightarrow> (string \<times> 'v) list \<Rightarrow> (string \<times> 'v) list" where
  "set_prop k v [] = [(k, v)]"
| "set_prop k v (p # ps) = (if fst p = k then (k, v) # ps else p # set_prop k v ps)"

section \<open>Character classes\<close>

definition is_lower :: "char \<Rightarrow> bool" where
  "is_lower c = (97 \<le> (of_char c :: nat) \<and> (of_char c :: nat) \<le> 122)"

definition is_upper :: "char \<Rightarrow> bool" where
  "is_upper c = (65 \<le> (of_char c :: nat) \<and> (of_char c :: nat) \<le> 90)"

definition is_digit :: "char \<Rightarrow> bool" where
  "is_digit c = (48 \<le> (of_char c :: nat) \<and> (of_char c :: nat) \<le> 57)"

section \<open>API.safeFilepath\<close>

text \<open>
  \<^verbatim>\<open>filepath.replace(/[^a-z0-9_\-@./]/gi, '')\<close>.
  The class between the brackets lists the ranges \<^verbatim>\<open>a-z\<close> and \<^verbatim>\<open>0-9\<close> and the
  characters \<^verbatim>\<open>_ - @ . /\<close>. The flag \<^verbatim>\<open>i\<close> ignores the case of ASCII letters (a
  character outside ASCII is never folded to an ASCII one). The flag \<^verbatim>\<open>g\<close> replaces
  every match.
\<close>

definition to_upper :: "char \<Rightarrow> char" where
  "to_upper c = (if is_lower c then char_of ((of_char c :: nat) - 32) else c)"

definition to_lower :: "char \<Rightarrow> char" where
  "to_lower c = (if is_upper c then char_of ((of_char c :: nat) + 32) else c)"

text \<open>The class as written, without the flag: \<^verbatim>\<open>[a-z0-9_\-@./]\<close>.\<close>

definition in_class :: "char \<Rightarrow> bool" where
  "in_class c =
     (is_lower c \<or> is_digit c \<or>
      c = CHR ''_'' \<or> c = CHR ''-'' \<or> c = CHR ''@'' \<or> c = CHR ''.'' \<or> c = CHR ''/'')"

text \<open>With the flag \<^verbatim>\<open>i\<close>: the class holds the character in one of its two cases.\<close>

definition in_class_ci :: "char \<Rightarrow> bool" where
  "in_class_ci c = (in_class c \<or> in_class (to_lower c) \<or> in_class (to_upper c))"

text \<open>The negated class \<^verbatim>\<open>[^...]\<close>: the characters the regular expression matches.\<close>

definition unsafe_char :: "char \<Rightarrow> bool" where
  "unsafe_char c = (\<not> in_class_ci c)"

text \<open>Global replacement of every match of a one-character pattern by a string.\<close>

fun replace_all :: "(char \<Rightarrow> bool) \<Rightarrow> string \<Rightarrow> string \<Rightarrow> string" where
  "replace_all p r [] = []"
| "replace_all p r (c # cs) = (if p c then r @ replace_all p r cs else c # replace_all p r cs)"

definition safeFilepath :: "string \<Rightarrow> string" where
  "safeFilepath filepath = replace_all unsafe_char [] filepath"

text \<open>The set of the claim, written out: \<^verbatim>\<open>[A-Za-z0-9_\-@./]\<close>.\<close>

definition allowed_char :: "char \<Rightarrow> bool" where
  "allowed_char c =
     (is_upper c \<or> is_lower c \<or> is_digit c \<or>
      c = CHR ''_'' \<or> c = CHR ''-'' \<or> c = CHR ''@'' \<or> c = CHR ''.'' \<or> c = CHR ''/'')"

section \<open>Errors and rejections\<close>

text \<open>
  Modelled from the spec: \<^verbatim>\<open>APIError\<close> of \<^verbatim>\<open>valueObjects/errors\<close>, which is not among the
  sources. The spec gives its shape as \<^verbatim>\<open>{ message, status, source }\<close>; the constructor is
  called as \<^verbatim>\<open>new APIError(error.message, responseStatus, 'GitLab')\<close>. A status that is
  \<^verbatim>\<open>undefined\<close> is \<open>None\<close>.
\<close>

record api_error =
  err_message :: jsval
  err_status :: "nat option"
  err_api :: string

text \<open>
  What a promise of this backend can be rejected with: a plain value (the parsed JSON
  that \<^verbatim>\<open>parseJsonResponse\<close> rejects with), a native \<^verbatim>\<open>Error\<close> with its message (a failed
  \<^verbatim>\<open>fetch\<close>, a syntax error of \<^verbatim>\<open>response.json()\<close>, a type error), or an \<^verbatim>\<open>APIError\<close>.
\<close>

datatype rejection =
    Thrown_value jsval
  | Thrown_Error string
  | Thrown_APIError api_error

text \<open>
  Reading the property \<^verbatim>\<open>message\<close> or \<^verbatim>\<open>status\<close> of a value: \<open>None\<close> is the type error
  of reading a property of \<^verbatim>\<open>null\<close> or \<^verbatim>\<open>undefined\<close>; a value without the property gives
  \<^verbatim>\<open>undefined\<close>.
\<close>

fun get_prop :: "string \<Rightarrow> jsval \<Rightarrow> jsval option" where
  "get_prop k JUndefined = None"
| "get_prop k JNull = None"
| "get_prop k (JObj kvs) = Some (case map_of kvs k of None \<Rightarrow> JUndefined | Some v \<Rightarrow> v)"
| "get_prop k v = Some JUndefined"

definition type_error :: rejection where
  "type_error = Thrown_Error ''Cannot read property of null or undefined''"

fun rejection_message :: "rejection \<Rightarrow> rejection + jsval" where
  "rejection_message (Thrown_value v) =
     (case get_prop ''message'' v of None \<Rightarrow> Inl type_error | Some m \<Rightarrow> Inr m)"
| "rejection_message (Thrown_Error msg) = Inr (JStr msg)"
| "rejection_message (Thrown_APIError a) = Inr (err_message a)"

fun status_jsval :: "nat option \<Rightarrow> jsval" where
  "status_jsval None = JUndefined"
| "status_jsval (Some n) = JNum (int n)"

fun rejection_status :: "rejection \<Rightarrow> rejection + jsval" where
  "rejection_status (Thrown_value v) =
     (case get_prop ''status'' v of None \<Rightarrow> Inl type_error | Some m \<Rightarrow> Inr m)"
| "rejection_status (Thrown_Error msg) = Inr JUndefined"
| "rejection_status (Thrown_APIError a) = Inr (status_jsval (err_status a))"

section \<open>The transport\<close>

text \<open>
  \<^verbatim>\<open>encodeURIComponent\<close>: every byte that is not a letter, a digit or one of
  \<^verbatim>\<open>- _ . ! ~ * ' ( )\<close> is written as a percent sign and two upper-case hexadecimal digits.
\<close>

definition uri_unreserved :: "char \<Rightarrow> bool" where
  "uri_unreserved c =
     (is_upper c \<or> is_lower c \<or> is_digit c \<or> c \<in> set ''-_.!~*()'' \<or> c = char_of (39 :: nat))"

definition hex_digit :: "nat \<Rightarrow> char" where
  "hex_digit n = ''0123456789ABCDEF'' ! (n mod 16)"

definition percent_encode :: "char \<Rightarrow> string" where
  "percent_encode c =
     [CHR ''%'', hex_digit ((of_char c :: nat) div 16), hex_digit ((of_char c :: nat) mod 16)]"

definition encodeURIComponent :: "string \<Rightarrow> string" where
  "encodeURIComponent s = concat (map (\<lambda>c. if uri_unreserved c then [c] else percent_encode c) s)"

text \<open>\<^verbatim>\<open>params.join("&")\<close>.\<close>

fun join :: "string \<Rightarrow> string list \<Rightarrow> string" where
  "join sep [] = []"
| "join sep [x] = x"
| "join sep (x # y # ys) = x @ sep @ join sep (y # ys)"

text \<open>
  The options object of \<^verbatim>\<open>request\<close>. An absent key is \<open>None\<close>. The body is kept as the
  value that the caller hands to \<^verbatim>\<open>JSON.stringify\<close>.
\<close>

record options =
  opt_method :: "string option"
  opt_body :: "jsval option"
  opt_headers :: "(string \<times> string) list option"
  opt_params :: "(string \<times> string) list option"
  opt_cache :: "bool option"

definition no_options :: options where
  "no_options =
     \<lparr>opt_method = None, opt_body = None, opt_headers = None, opt_params = None,
      opt_cache = None\<rparr>"

text \<open>The two arguments of a call of \<^verbatim>\<open>fetch\<close>.\<close>

record http_request =
  req_url :: string
  req_init :: options

text \<open>
  What \<^verbatim>\<open>fetch\<close> delivers: a rejection (DNS, timeout, connection reset) or a response.
  \<open>resp_text\<close> is the result of \<^verbatim>\<open>response.text()\<close>, \<open>resp_json\<close> the result of
  \<^verbatim>\<open>response.json()\<close>: the parsed body, or the message of the syntax error.
\<close>

record response =
  resp_status :: nat
  resp_content_type :: "string option"
  resp_text :: string
  resp_json :: "string + jsval"

datatype fetch_result = NetworkError string | Response response

definition resp_ok :: "response \<Rightarrow> bool" where
  "resp_ok r = (200 \<le> resp_status r \<and> resp_status r \<le> 299)"

section \<open>class API\<close>

record api_config =
  cfg_api_root :: "string option"
  cfg_token :: "string option"
  cfg_branch :: "string option"
  cfg_repo :: "string option"

record api =
  api_root :: string
  token :: "string option"
  branch :: string
  repo :: string
  repoURL :: string

definition API_constructor :: "api_config \<Rightarrow> api" where
  "API_constructor config =
     (let r = or_default (cfg_repo config) [] in
      \<lparr>api_root = or_default (cfg_api_root config) ''https://gitlab.com/api/v3'',
       token = (if truthy_str (cfg_token config) then cfg_token config else None),
       branch = or_default (cfg_branch config) ''master'',
       repo = r,
       repoURL = ''/projects/'' @ encodeURIComponent r @ ''/repository''\<rparr>)"

definition requestHeaders :: "api \<Rightarrow> (string \<times> string) list \<Rightarrow> (string \<times> string) list" where
  "requestHeaders a headers =
     (let baseHeader = fold (\<lambda>(k, v). set_prop k v) headers [(''Content-Type'', ''application/json'')]
      in case token a of
           Some t \<Rightarrow> set_prop ''Authorization'' (''Bearer '' @ t) baseHeader
         | None \<Rightarrow> baseHeader)"

definition parseJsonResponse :: "response \<Rightarrow> rejection + jsval" where
  "parseJsonResponse r =
     (case resp_json r of
        Inl msg \<Rightarrow> Inl (Thrown_Error msg)
      | Inr json \<Rightarrow> if \<not> resp_ok r then Inl (Thrown_value json) else Inr json)"

definition urlFor :: "api \<Rightarrow> string \<Rightarrow> options \<Rightarrow> string" where
  "urlFor a path opts =
     (let params = (case opt_params opts of
                      None \<Rightarrow> []
                    | Some ps \<Rightarrow> map (\<lambda>(key, v). key @ ''='' @ encodeURIComponent v) ps)
      in api_root a @ (if params \<noteq> [] then path @ ''?'' @ join ''&'' params else path))"

text \<open>\<^verbatim>\<open>contentType && contentType.match(/json/)\<close>.\<close>

fun match_json :: "string \<Rightarrow> bool" where
  "match_json [] = False"
| "match_json (c # cs) = (take 4 (c # cs) = ''json'' \<or> match_json cs)"

fun json_content_type :: "string option \<Rightarrow> bool" where
  "json_content_type None = False"
| "json_content_type (Some ct) = match_json ct"

text \<open>
  \<^verbatim>\<open>request\<close> in two halves. \<open>request_send\<close> is what runs before \<^verbatim>\<open>fetch\<close> is called and
  gives its arguments; \<open>request_receive\<close> is the \<^verbatim>\<open>then\<close> and \<^verbatim>\<open>catch\<close> callbacks, run on
  what \<^verbatim>\<open>fetch\<close> delivers. \<open>request_catch\<close> is the \<^verbatim>\<open>catch\<close> callback: it reads
  \<^verbatim>\<open>error.message\<close> (a type error when the rejection is \<^verbatim>\<open>null\<close>) and throws the
  \<^verbatim>\<open>APIError\<close>.
\<close>

definition request_send :: "api \<Rightarrow> string \<Rightarrow> options \<Rightarrow> http_request" where
  "request_send a path opts =
     (let headers = requestHeaders a (case opt_headers opts of None \<Rightarrow> [] | Some h \<Rightarrow> h);
          url = urlFor a path opts
      in \<lparr>req_url = url, req_init = opts\<lparr>opt_headers := Some headers\<rparr>\<rparr>)"

definition request_catch :: "nat option \<Rightarrow> rejection \<Rightarrow> rejection" where
  "request_catch responseStatus error =
     (case rejection_message error of
        Inl thrown \<Rightarrow> thrown
      | Inr m \<Rightarrow> Thrown_APIError \<lparr>err_message = m, err_status = responseStatus, err_api = ''GitLab''\<rparr>)"

definition request_receive :: "fetch_result \<Rightarrow> rejection + jsval" where
  "request_receive fr =
     (case fr of
        NetworkError msg \<Rightarrow> Inl (request_catch None (Thrown_Error msg))
      | Response r \<Rightarrow>
          (let responseStatus = Some (resp_status r);
               settled = (if json_content_type (resp_content_type r)
                          then parseJsonResponse r
                          else Inr (JStr (resp_text r)))
           in case settled of
                Inl error \<Rightarrow> Inl (request_catch responseStatus error)
              | Inr v \<Rightarrow> Inr v))"

text \<open>
  The world a call runs in: the store behind \<^verbatim>\<open>LocalForage\<close> (keys with their values,
  in insertion order) and the requests handed to \<^verbatim>\<open>fetch\<close> so far.
\<close>

record world =
  cache :: "(string \<times> jsval) list"
  sent :: "http_request list"

text \<open>
  A whole call of \<^verbatim>\<open>request\<close>, awaited: \<open>net\<close> is what the network answers to the
  request.
\<close>

definition request ::
  "api \<Rightarrow> (http_request \<Rightarrow> fetch_result) \<Rightarrow> world \<Rightarrow> string \<Rightarrow> options \<Rightarrow> (rejection + jsval) \<times> world" where
  "request a net w path opts =
     (let req = request_send a path opts
      in (request_receive (net req), w\<lparr>sent := sent w @ [req]\<rparr>))"

text \<open>\<^verbatim>\<open>LocalForage.getItem\<close> gives \<^verbatim>\<open>null\<close> for a key that is not stored.\<close>

definition getItem :: "world \<Rightarrow> string \<Rightarrow> jsval" where
  "getItem w k = (case map_of (cache w) k of None \<Rightarrow> JNull | Some v \<Rightarrow> v)"

definition setItem :: "string \<Rightarrow> jsval \<Rightarrow> world \<Rightarrow> world" where
  "setItem k v w = w\<lparr>cache := set_prop k v (cache w)\<rparr>"

text \<open>The cache key of a hash: \<^verbatim>\<open>sha ? `gh.${ sha }` : ...\<close>; \<open>None\<close> when \<^verbatim>\<open>sha\<close> is falsy.\<close>

fun cache_key :: "string option \<Rightarrow> string option" where
  "cache_key None = None"
| "cache_key (Some sha) = (if sha = [] then None else Some (''gh.'' @ sha))"

text \<open>
  \<^verbatim>\<open>readFile(path, sha, branch = this.branch)\<close>. The third argument is \<open>None\<close> when the
  caller leaves it out.
\<close>

definition blob_options :: "string \<Rightarrow> options" where
  "blob_options path = no_options\<lparr>opt_params := Some [(''filepath'', path)], opt_cache := Some False\<rparr>"

definition readFile ::
  "api \<Rightarrow> (http_request \<Rightarrow> fetch_result) \<Rightarrow> world \<Rightarrow> string \<Rightarrow> string option \<Rightarrow> string option
     \<Rightarrow> (rejection + jsval) \<times> world" where
  "readFile a net w path sha branch_arg =
     (let branch' = (case branch_arg of None \<Rightarrow> branch a | Some b \<Rightarrow> b);
          cached = (case cache_key sha of None \<Rightarrow> JNull | Some k \<Rightarrow> getItem w k)
      in if truthy cached then (Inr cached, w)
         else (case request a net w (repoURL a @ ''/blobs/'' @ branch') (blob_options path) of
                 (Inl error, w') \<Rightarrow> (Inl error, w')
               | (Inr result, w') \<Rightarrow>
                   (Inr result,
                    case cache_key sha of None \<Rightarrow> w' | Some k \<Rightarrow> setItem k result w')))"

definition getFile_options :: "api \<Rightarrow> string \<Rightarrow> options" where
  "getFile_options a path =
     no_options\<lparr>opt_params := Some [(''file_path'', path), (''ref'', branch a)]\<rparr>"

section \<open>API.persistFiles\<close>

text \<open>
  \<^verbatim>\<open>Base64.encode\<close> of the package js-base64, on the bytes of the string: three bytes
  become four characters of the alphabet, and the last group is padded with \<^verbatim>\<open>=\<close>.
\<close>

definition b64_alphabet :: string where
  "b64_alphabet = ''ABCDEFGHIJKLMNOPQRSTUVWXYZabcdefghijklmnopqrstuvwxyz0123456789+/''"

definition b64_char :: "nat \<Rightarrow> char" where
  "b64_char n = b64_alphabet ! (n mod 64)"

fun b64_bytes :: "nat list \<Rightarrow> string" where
  "b64_bytes [] = []"
| "b64_bytes [a] = [b64_char (a div 4), b64_char ((a mod 4) * 16), CHR ''='', CHR ''='']"
| "b64_bytes [a, b] =
     [b64_char (a div 4), b64_char ((a mod 4) * 16 + b div 16), b64_char ((b mod 16) * 4), CHR ''='']"
| "b64_bytes (a # b # c # rest) =
     [b64_char (a div 4), b64_char ((a mod 4) * 16 + b div 16),
      b64_char ((b mod 16) * 4 + c div 64), b64_char (c mod 64)] @ b64_bytes rest"

definition Base64_encode :: "string \<Rightarrow> string" where
  "Base64_encode str = b64_bytes (map of_char str)"

text \<open>
  Modelled from the spec: \<^verbatim>\<open>AssetProxy\<close> of \<^verbatim>\<open>valueObjects/AssetProxy\<close>, which is not among
  the sources. The spec describes it as an opaque payload capable of producing a base64
  encoding of itself; the model carries what the promise of \<^verbatim>\<open>toBase64()\<close> settles with.
  Any other file is an object with a \<^verbatim>\<open>path\<close> and a \<^verbatim>\<open>raw\<close> text.
\<close>

datatype persistable =
    AssetProxy string "rejection + string"
  | RawFile string string

fun path_of :: "persistable \<Rightarrow> string" where
  "path_of (AssetProxy p enc) = p"
| "path_of (RawFile p raw) = p"

text \<open>
  The first \<^verbatim>\<open>then\<close> of the chain: \<^verbatim>\<open>file.toBase64()\<close> for an \<^verbatim>\<open>AssetProxy\<close>,
  \<^verbatim>\<open>this.toBase64(file.raw)\<close> otherwise.
\<close>

fun toBase64 :: "persistable \<Rightarrow> rejection + string" where
  "toBase64 (AssetProxy p enc) = enc"
| "toBase64 (RawFile p raw) = Inr (Base64_encode raw)"

record fileObj =
  file_path :: string
  content :: "string option"
  encoding :: "string option"
  action :: "string option"

text \<open>The object as \<^verbatim>\<open>JSON.stringify\<close> sees it: a key that was never set is left out.\<close>

definition opt_field :: "string \<Rightarrow> string option \<Rightarrow> (string \<times> jsval) list" where
  "opt_field k v = (case v of None \<Rightarrow> [] | Some x \<Rightarrow> [(k, JStr x)])"

definition fileObj_json :: "fileObj \<Rightarrow> jsval" where
  "fileObj_json fo =
     JObj ([(''file_path'', JStr (file_path fo))] @ opt_field ''content'' (content fo) @
           opt_field ''encoding'' (encoding fo) @ opt_field ''action'' (action fo))"

definition commit_options :: "api \<Rightarrow> string option \<Rightarrow> fileObj list \<Rightarrow> options" where
  "commit_options a commitMessage actions =
     (let branchName = branch a
      in no_options
           \<lparr>opt_method := Some ''POST'',
            opt_body := Some (JObj ([(''branchName'', JStr branchName)] @
                                    opt_field ''commitMessage'' commitMessage @
                                    [(''actions'', JArr (map fileObj_json actions))]))\<rparr>)"

text \<open>The arguments of \<^verbatim>\<open>fetch\<close> in \<^verbatim>\<open>getFile(path)\<close> and in \<^verbatim>\<open>commit(commitMessage, actions)\<close>.\<close>

definition getFile_request :: "api \<Rightarrow> string \<Rightarrow> http_request" where
  "getFile_request a p = request_send a (repoURL a @ ''/files'') (getFile_options a p)"

definition commit_request :: "api \<Rightarrow> string option \<Rightarrow> fileObj list \<Rightarrow> http_request" where
  "commit_request a commitMessage actions =
     request_send a (repoURL a @ ''/commits'') (commit_options a commitMessage actions)"

text \<open>
  The two callbacks of \<^verbatim>\<open>.then(() => {...}, (err) => {...})\<close> after \<^verbatim>\<open>getFile\<close>. The second
  one sees every rejection of the chain so far, the one of the encoding step included.
  \<^verbatim>\<open>err.status === 404\<close> is a strict comparison with the number.
\<close>

fun probe_handlers :: "rejection + jsval \<Rightarrow> fileObj \<Rightarrow> rejection + fileObj" where
  "probe_handlers (Inr v) fo = Inr (fo\<lparr>action := Some ''update''\<rparr>)"
| "probe_handlers (Inl err) fo =
     (case rejection_status err of
        Inl thrown \<Rightarrow> Inl thrown
      | Inr st \<Rightarrow> if st = JNum 404 then Inr (fo\<lparr>action := Some ''create''\<rparr>) else Inl err)"

text \<open>
  \<^verbatim>\<open>persistFiles\<close> builds one promise chain per file and joins them with \<^verbatim>\<open>Promise.all\<close>.
  The chains run interleaved: each waits for its encoding, then for the answer to its
  probe, then for the answer to its commit. A chain is modelled by the stage it waits
  in; the state holds the chains in the order of \<^verbatim>\<open>files\<close>, the requests handed to
  \<^verbatim>\<open>fetch\<close> so far (each with the index of the chain that made it), and what the promise
  of \<^verbatim>\<open>Promise.all\<close> has settled with, if it has.
\<close>

datatype stage = Encoding | Probing | Committing | Resolved jsval | Rejected rejection

record chain =
  ch_file :: persistable
  ch_fileObj :: fileObj
  ch_stage :: stage

record persist_state =
  chains :: "chain list"
  requests :: "(nat \<times> http_request) list"
  outcome :: "(rejection + jsval list) option"

text \<open>
  An event is the completion of what a chain waits for: its encoding, or the delivery
  of what \<^verbatim>\<open>fetch\<close> answers to its pending request. The order of the events is the
  schedule; it is not fixed by the code.
\<close>

datatype event = Encoded nat | Delivered nat fetch_result

definition new_chain :: "persistable \<Rightarrow> chain" where
  "new_chain file =
     \<lparr>ch_file = file,
      ch_fileObj = \<lparr>file_path = safeFilepath (path_of file), content = None, encoding = None,
                    action = None\<rparr>,
      ch_stage = Encoding\<rparr>"

definition persist_init :: "persistable \<Rightarrow> persistable list \<Rightarrow> persist_state" where
  "persist_init entry mediaFiles =
     (let files = mediaFiles @ [entry]
      in \<lparr>chains = map new_chain files, requests = [], outcome = None\<rparr>)"

text \<open>
  The tail of a chain once the action is known or the chain has failed:
  \<^verbatim>\<open>.then(() => this.commit(options.commitMessage, [fileObj]))\<close> runs only when the
  handlers before it did not throw.
\<close>

fun after_probe ::
  "api \<Rightarrow> string option \<Rightarrow> chain \<Rightarrow> rejection + fileObj \<Rightarrow> chain \<times> http_request list" where
  "after_probe a commitMessage c (Inl err) = (c\<lparr>ch_stage := Rejected err\<rparr>, [])"
| "after_probe a commitMessage c (Inr fo) =
     (c\<lparr>ch_fileObj := fo, ch_stage := Committing\<rparr>, [commit_request a commitMessage [fo]])"

text \<open>One step of one chain: the new chain and the requests it hands to \<^verbatim>\<open>fetch\<close>.\<close>

fun chain_step ::
  "api \<Rightarrow> string option \<Rightarrow> chain \<Rightarrow> fetch_result option \<Rightarrow> chain \<times> http_request list" where
  "chain_step a commitMessage c None =
     (case ch_stage c of
        Encoding \<Rightarrow>
          (case toBase64 (ch_file c) of
             Inr b64 \<Rightarrow>
               (c\<lparr>ch_fileObj := (ch_fileObj c)\<lparr>content := Some b64, encoding := Some ''base64''\<rparr>,
                  ch_stage := Probing\<rparr>,
                [getFile_request a (path_of (ch_file c))])
           | Inl err \<Rightarrow> after_probe a commitMessage c (probe_handlers (Inl err) (ch_fileObj c)))
      | _ \<Rightarrow> (c, []))"
| "chain_step a commitMessage c (Some fr) =
     (case ch_stage c of
        Probing \<Rightarrow>
          after_probe a commitMessage c (probe_handlers (request_receive fr) (ch_fileObj c))
      | Committing \<Rightarrow>
          (case request_receive fr of
             Inl err \<Rightarrow> (c\<lparr>ch_stage := Rejected err\<rparr>, [])
           | Inr receipt \<Rightarrow> (c\<lparr>ch_stage := Resolved receipt\<rparr>, []))
      | _ \<Rightarrow> (c, []))"

text \<open>
  \<^verbatim>\<open>Promise.all\<close>: it rejects with the first rejection among its promises, and resolves
  with the values in the order of the promises once all of them have resolved.
\<close>

fun resolved_value :: "stage \<Rightarrow> jsval option" where
  "resolved_value (Resolved v) = Some v"
| "resolved_value st = None"

fun all_values :: "stage list \<Rightarrow> jsval list option" where
  "all_values [] = Some []"
| "all_values (st # sts) =
     (case resolved_value st of
        None \<Rightarrow> None
      | Some v \<Rightarrow> (case all_values sts of None \<Rightarrow> None | Some vs \<Rightarrow> Some (v # vs)))"

definition promise_all ::
  "(rejection + jsval list) option \<Rightarrow> stage \<Rightarrow> stage list \<Rightarrow> (rejection + jsval list) option" where
  "promise_all settled changed stages =
     (case settled of
        Some r \<Rightarrow> Some r
      | None \<Rightarrow>
          (case changed of
             Rejected err \<Rightarrow> Some (Inl err)
           | _ \<Rightarrow> (case all_values stages of None \<Rightarrow> None | Some vs \<Rightarrow> Some (Inr vs))))"

fun event_chain :: "event \<Rightarrow> nat" where
  "event_chain (Encoded i) = i"
| "event_chain (Delivered i fr) = i"

fun event_payload :: "event \<Rightarrow> fetch_result option" where
  "event_payload (Encoded i) = None"
| "event_payload (Delivered i fr) = Some fr"

definition persist_step :: "api \<Rightarrow> string option \<Rightarrow> event \<Rightarrow> persist_state \<Rightarrow> persist_state" where
  "persist_step a commitMessage ev s =
     (let i = event_chain ev
      in if i < length (chains s) then
           (let (c', reqs) = chain_step a commitMessage (chains s ! i) (event_payload ev);
                chains' = (chains s)[i := c']
            in \<lparr>chains = chains',
                requests = requests s @ map (Pair i) reqs,
                outcome = (if ch_stage c' = ch_stage (chains s ! i) then outcome s
                           else promise_all (outcome s) (ch_stage c') (map ch_stage chains'))\<rparr>)
         else s)"

definition persist_run ::
  "api \<Rightarrow> string option \<Rightarrow> event list \<Rightarrow> persist_state \<Rightarrow> persist_state" where
  "persist_run a commitMessage evs s = fold (persist_step a commitMessage) evs s"

text \<open>The requests that a chain has made, in order.\<close>

definition requests_of :: "nat \<Rightarrow> persist_state \<Rightarrow> http_request list" where
  "requests_of i s = map snd (filter (\<lambda>p. fst p = i) (requests s))"

text \<open>
  A commit request is a \<^verbatim>\<open>POST\<close>; \<open>actions_of\<close> reads the \<^verbatim>\<open>actions\<close> list of its body.
\<close>

definition is_commit :: "http_request \<Rightarrow> bool" where
  "is_commit r = (opt_method (req_init r) = Some ''POST'')"

fun actions_of :: "http_request \<Rightarrow> jsval list" where
  "actions_of r =
     (case opt_body (req_init r) of
        Some (JObj kvs) \<Rightarrow> (case map_of kvs ''actions'' of Some (JArr xs) \<Rightarrow> xs | _ \<Rightarrow> [])
      | _ \<Rightarrow> [])"

text \<open>
  What holds of a chain and the requests it has made, at every point of every schedule.
  A chain that has got past its probe has its action and has made its one commit
  request, with its own \<open>fileObj\<close> as the only action.
\<close>

definition committed :: "api \<Rightarrow> string option \<Rightarrow> chain \<Rightarrow> http_request list \<Rightarrow> bool" where
  "committed a commitMessage c rs =
     ((action (ch_fileObj c) = Some ''update'' \<or> action (ch_fileObj c) = Some ''create'') \<and>
      (rs = [getFile_request a (path_of (ch_file c)), commit_request a commitMessage [ch_fileObj c]] \<or>
       rs = [commit_request a commitMessage [ch_fileObj c]]))"

definition not_committed :: "api \<Rightarrow> chain \<Rightarrow> http_request list \<Rightarrow> bool" where
  "not_committed a c rs =
     (action (ch_fileObj c) = None \<and> (rs = [] \<or> rs = [getFile_request a (path_of (ch_file c))]))"

definition chain_inv :: "api \<Rightarrow> string option \<Rightarrow> chain \<Rightarrow> http_request list \<Rightarrow> bool" where
  "chain_inv a commitMessage c rs =
     (file_path (ch_fileObj c) = safeFilepath (path_of (ch_file c)) \<and>
      (case ch_stage c of
         Encoding \<Rightarrow> action (ch_fileObj c) = None \<and> rs = []
       | Probing \<Rightarrow> action (ch_fileObj c) = None \<and> rs = [getFile_request a (path_of (ch_file c))]
       | Committing \<Rightarrow> committed a commitMessage c rs
       | Resolved v \<Rightarrow> committed a commitMessage c rs
       | Rejected err \<Rightarrow> committed a commitMessage c rs \<or> not_committed a c rs))"

definition commit_count :: "persist_state \<Rightarrow> nat" where
  "commit_count s = length (filter (\<lambda>p. is_commit (snd p)) (requests s))"

definition has_action :: "chain \<Rightarrow> bool" where
  "has_action c = (action (ch_fileObj c) \<noteq> None)"

definition persist_inv :: "api \<Rightarrow> string option \<Rightarrow> persist_state \<Rightarrow> bool" where
  "persist_inv a commitMessage s =
     ((\<forall>i < length (chains s). chain_inv a commitMessage (chains s ! i) (requests_of i s)) \<and>
      (\<forall>p \<in> set (requests s). fst p < length (chains s)) \<and>
      commit_count s = length (filter has_action (chains s)) \<and>
      (\<forall>vs. outcome s = Some (Inr vs) \<longrightarrow> all_values (map ch_stage (chains s)) = Some vs))"



section \<open>class GitLab\<close>

text \<open>
  The configuration, as far as the constructor reads it: \<^verbatim>\<open>config.getIn(["backend", "repo"])\<close>,
  \<^verbatim>\<open>config.getIn(["backend", "branch"])\<close> and \<^verbatim>\<open>config.get("publish_mode")\<close>. A key is
  missing, or holds \<^verbatim>\<open>null\<close>, or holds a string.
\<close>

datatype config_value = NotSet | NullValue | StrValue string

record config =
  backend_repo :: config_value
  backend_branch :: config_value
  publish_mode :: config_value

text \<open>\<^verbatim>\<open>v == null\<close>: true of \<^verbatim>\<open>undefined\<close> (a missing key) and of \<^verbatim>\<open>null\<close>.\<close>

fun nullish :: "config_value \<Rightarrow> bool" where
  "nullish NotSet = True"
| "nullish NullValue = True"
| "nullish (StrValue v) = False"

text \<open>
  Modelled from the spec: the constant \<^verbatim>\<open>EDITORIAL_WORKFLOW\<close> of \<^verbatim>\<open>constants/publishModes\<close>
  and the class \<^verbatim>\<open>EditorialWorkflowError\<close> of \<^verbatim>\<open>valueObjects/errors\<close>, which are not among
  the sources. The spec names the mode \<^verbatim>\<open>publish_mode = "editorial_workflow"\<close> and calls the
  error a configuration error; the constructor is called with a message and \<^verbatim>\<open>false\<close>.
\<close>

definition EDITORIAL_WORKFLOW :: string where
  "EDITORIAL_WORKFLOW = ''editorial_workflow''"

text \<open>
  Modelled from the spec: what the constructor throws, a plain \<^verbatim>\<open>Error\<close> with its message or
  the \<^verbatim>\<open>EditorialWorkflowError\<close> with its message and its second argument.
\<close>

datatype construction_error =
    Error string
  | EditorialWorkflowError string bool

text \<open>The fields \<^verbatim>\<open>repo\<close> and \<^verbatim>\<open>branch\<close> hold a string or \<^verbatim>\<open>null\<close> (\<open>None\<close>).\<close>

record gitlab =
  gl_config :: config
  gl_repo :: "string option"
  gl_branch :: "string option"
  gl_token :: string
  gl_api :: "api option"

text \<open>
  \<^verbatim>\<open>config.getIn(path, notSetValue)\<close>: the default stands in for a missing key only; a key
  that holds \<^verbatim>\<open>null\<close> gives \<^verbatim>\<open>null\<close>.
\<close>

fun getIn_default :: "config_value \<Rightarrow> string \<Rightarrow> string option" where
  "getIn_default NotSet d = Some d"
| "getIn_default NullValue d = None"
| "getIn_default (StrValue v) d = Some v"

definition GitLab_constructor :: "config \<Rightarrow> bool \<Rightarrow> construction_error + gitlab" where
  "GitLab_constructor cfg proxied =
     (if \<not> proxied \<and> nullish (backend_repo cfg) then
        Inl (Error (''The GitLab backend needs a '' @ [CHR 0x22] @ ''repo'' @ [CHR 0x22] @
                    '' in the backend configuration.''))
      else if publish_mode cfg = StrValue EDITORIAL_WORKFLOW then
        Inl (EditorialWorkflowError ''The GitLab backend does not support the Editorial Workflow.'' False)
      else
        Inr \<lparr>gl_config = cfg,
             gl_repo = getIn_default (backend_repo cfg) [],
             gl_branch = getIn_default (backend_branch cfg) ''master'',
             gl_token = [],
             gl_api = None\<rparr>)"

text \<open>\<^verbatim>\<open>setUser(user)\<close>: the first point at which the object holds an \<^verbatim>\<open>API\<close>.\<close>

definition setUser :: "string \<Rightarrow> gitlab \<Rightarrow> gitlab" where
  "setUser user_token g =
     g\<lparr>gl_token := user_token,
       gl_api := Some (API_constructor
                         \<lparr>cfg_api_root = None, cfg_token = Some user_token,
                          cfg_branch = gl_branch g, cfg_repo = gl_repo g\<rparr>)\<rparr>"

section \<open>GitLab.fetchFiles\<close>

definition MAX_CONCURRENT_DOWNLOADS :: nat where
  "MAX_CONCURRENT_DOWNLOADS = 10"

text \<open>The file objects handed to \<^verbatim>\<open>fetchFiles\<close>, and the objects it resolves with.\<close>

record fileref =
  fr_path :: string
  fr_sha :: "string option"
  fr_label :: "string option"

record fetched =
  ff_file :: fileref
  ff_data :: jsval

text \<open>
  Modelled from the spec: the admission gate, which is the package \<^verbatim>\<open>semaphore\<close> and not
  among the sources. It holds a fixed number of permits; \<^verbatim>\<open>take\<close> starts the task at once
  when a permit is free and queues it otherwise; \<^verbatim>\<open>leave\<close> gives the permit back and
  hands it to the oldest queued task, if there is one. A task is the index of the file
  whose read it starts. \<open>take\<close> says whether the task starts, \<open>leave\<close> which task it
  starts.
\<close>

record semaphore =
  capacity :: int
  current :: int
  queue :: "nat list"

text \<open>
  Modelled from the spec: \<^verbatim>\<open>semaphore(capacity)\<close>, a gate with all its permits free and
  nothing queued.
\<close>

definition new_semaphore :: "nat \<Rightarrow> semaphore" where
  "new_semaphore n = \<lparr>capacity = int n, current = 0, queue = []\<rparr>"

text \<open>
  Modelled from the spec: \<^verbatim>\<open>sem.take(task)\<close>. The task takes a permit and starts when one
  is free; otherwise it joins the queue.
\<close>

definition take_permit :: "nat \<Rightarrow> semaphore \<Rightarrow> semaphore \<times> bool" where
  "take_permit task sem =
     (if current sem + 1 > capacity sem then (sem\<lparr>queue := queue sem @ [task]\<rparr>, False)
      else (sem\<lparr>current := current sem + 1\<rparr>, True))"

text \<open>
  Modelled from the spec: \<^verbatim>\<open>sem.leave()\<close>. The permit is given back; when a task is queued
  and a permit is free again, the oldest queued task takes it and starts.
\<close>

definition leave :: "semaphore \<Rightarrow> semaphore \<times> nat option" where
  "leave sem =
     (let sem' = sem\<lparr>current := current sem - 1\<rparr>
      in case queue sem' of
           [] \<Rightarrow> (sem', None)
         | task # rest \<Rightarrow>
             if current sem' + 1 > capacity sem' then (sem', None)
             else (sem'\<lparr>queue := rest, current := current sem' + 1\<rparr>, Some task))"

text \<open>
  The promise that \<^verbatim>\<open>fetchFiles\<close> makes for a file: its task waits in the queue of the
  semaphore, or its read is under way and holds a permit, or the promise has been
  resolved or rejected.
\<close>

datatype read_state = Waiting | Reading | Done fetched | Failed rejection

record fetch_state =
  fs_files :: "fileref list"
  fs_sem :: semaphore
  fs_reads :: "read_state list"
  fs_result :: "(rejection + fetched list) option"

text \<open>\<^verbatim>\<open>Promise.all(promises)\<close>, as for \<open>persistFiles\<close>.\<close>

fun done_value :: "read_state \<Rightarrow> fetched option" where
  "done_value (Done f) = Some f"
| "done_value st = None"

fun all_done :: "read_state list \<Rightarrow> fetched list option" where
  "all_done [] = Some []"
| "all_done (st # sts) =
     (case done_value st of
        None \<Rightarrow> None
      | Some f \<Rightarrow> (case all_done sts of None \<Rightarrow> None | Some fs \<Rightarrow> Some (f # fs)))"

definition join_reads ::
  "(rejection + fetched list) option \<Rightarrow> read_state \<Rightarrow> read_state list
     \<Rightarrow> (rejection + fetched list) option" where
  "join_reads settled changed reads =
     (case settled of
        Some r \<Rightarrow> Some r
      | None \<Rightarrow>
          (case changed of
             Failed err \<Rightarrow> Some (Inl err)
           | _ \<Rightarrow> (case all_done reads of None \<Rightarrow> None | Some fs \<Rightarrow> Some (Inr fs))))"

text \<open>
  \<^verbatim>\<open>files.forEach\<close>: one promise per file, whose executor calls \<^verbatim>\<open>sem.take\<close>. The read of a
  file starts at once while permits are left.
\<close>

definition push_promise :: "nat \<Rightarrow> semaphore \<times> read_state list \<Rightarrow> semaphore \<times> read_state list" where
  "push_promise i acc =
     (case take_permit i (fst acc) of
        (sem', starts) \<Rightarrow> (sem', snd acc @ [if starts then Reading else Waiting]))"

definition fetch_init :: "fileref list \<Rightarrow> fetch_state" where
  "fetch_init files =
     (let sem = new_semaphore MAX_CONCURRENT_DOWNLOADS;
          (sem', promises) = fold push_promise [0 ..< length files] (sem, [])
      in \<lparr>fs_files = files, fs_sem = sem', fs_reads = promises,
          fs_result = (case all_done promises of None \<Rightarrow> None | Some fs \<Rightarrow> Some (Inr fs))\<rparr>)"

text \<open>
  \<^verbatim>\<open>sem.leave()\<close> inside the callbacks of a read: the permit goes back, and the task that
  the semaphore starts, if any, begins its read.
\<close>

definition sem_leave :: "fetch_state \<Rightarrow> fetch_state" where
  "sem_leave s =
     (case leave (fs_sem s) of
        (sem', None) \<Rightarrow> s\<lparr>fs_sem := sem'\<rparr>
      | (sem', Some task) \<Rightarrow> s\<lparr>fs_sem := sem', fs_reads := (fs_reads s)[task := Reading]\<rparr>)"

text \<open>\<^verbatim>\<open>resolve({ file, data })\<close> and \<^verbatim>\<open>reject(err)\<close> of the promise of file \<open>i\<close>.\<close>

definition settle_read :: "nat \<Rightarrow> read_state \<Rightarrow> fetch_state \<Rightarrow> fetch_state" where
  "settle_read i st s =
     (let reads = (fs_reads s)[i := st]
      in s\<lparr>fs_reads := reads, fs_result := join_reads (fs_result s) st reads\<rparr>)"

text \<open>
  An event is the settling of the promise of \<^verbatim>\<open>this.api.readFile(file.path, file.sha)\<close> for
  the file of the given index, with a value or with a rejection. It is an event of the
  schedule only while that read is under way. On a value the \<^verbatim>\<open>then\<close> callback resolves
  and then leaves; on a rejection the \<^verbatim>\<open>catch\<close> callback leaves and then rejects.
\<close>

datatype read_event = Complete nat "rejection + jsval"

fun fetch_step :: "read_event \<Rightarrow> fetch_state \<Rightarrow> fetch_state" where
  "fetch_step (Complete i settled) s =
     (if i < length (fs_reads s) \<and> fs_reads s ! i = Reading then
        (case settled of
           Inr data \<Rightarrow> sem_leave (settle_read i (Done \<lparr>ff_file = fs_files s ! i, ff_data = data\<rparr>) s)
         | Inl err \<Rightarrow> settle_read i (Failed err) (sem_leave s))
      else s)"

definition fetch_run :: "read_event list \<Rightarrow> fetch_state \<Rightarrow> fetch_state" where
  "fetch_run evs s = fold fetch_step evs s"

text \<open>The reads that hold a permit.\<close>

definition reading :: "fetch_state \<Rightarrow> nat" where
  "reading s = length (filter (\<lambda>st. st = Reading) (fs_reads s))"

text \<open>
  What holds of the semaphore and the promises at every point of every schedule: the
  permits in use are exactly those of the reads under way, the queue holds exactly the
  waiting reads, and nothing waits while a permit is free.
\<close>

definition sem_inv :: "fetch_state \<Rightarrow> bool" where
  "sem_inv s =
     (length (fs_reads s) = length (fs_files s) \<and>
      capacity (fs_sem s) = int MAX_CONCURRENT_DOWNLOADS \<and>
      current (fs_sem s) = int (reading s) \<and>
      current (fs_sem s) \<le> capacity (fs_sem s) \<and>
      distinct (queue (fs_sem s)) \<and>
      set (queue (fs_sem s)) = {i. i < length (fs_reads s) \<and> fs_reads s ! i = Waiting} \<and>
      (queue (fs_sem s) \<noteq> [] \<longrightarrow> current (fs_sem s) = capacity (fs_sem s)))"

text \<open>
  What holds of the joined promise: it is pending only while no read has failed, it is
  rejected only with the rejection of a failed read, and it is resolved only with the
  values of all the reads, each value being the one of the file at its index.
\<close>

definition join_inv :: "fetch_state \<Rightarrow> bool" where
  "join_inv s =
     ((fs_result s = None \<longrightarrow> (\<forall>err. Failed err \<notin> set (fs_reads s))) \<and>
      (\<forall>err. fs_result s = Some (Inl err) \<longrightarrow> Failed err \<in> set (fs_reads s)) \<and>
      (\<forall>fs. fs_result s = Some (Inr fs) \<longrightarrow> all_done (fs_reads s) = Some fs) \<and>
      (\<forall>i f. i < length (fs_reads s) \<and> fs_reads s ! i = Done f \<longrightarrow> ff_file f = fs_files s ! i))"

text \<open>The state in which an event leaves the promise of the file it settles.\<close>

fun settled_state :: "fileref \<Rightarrow> rejection + jsval \<Rightarrow> read_state" where
  "settled_state f (Inr d) = Done \<lparr>ff_file = f, ff_data = d\<rparr>"
| "settled_state f (Inl err) = Failed err"

text \<open>The value of every resolved read is the one that an event of the schedule delivered.\<close>

definition delivered :: "read_event list \<Rightarrow> fetch_state \<Rightarrow> bool" where
  "delivered evs s =
     (\<forall>i f. i < length (fs_reads s) \<and> fs_reads s ! i = Done f \<longrightarrow>
        Complete i (Inr (ff_data f)) \<in> set evs)"

section \<open>Sample values\<close>

definition sample_api :: api where
  "sample_api =
     API_constructor
       \<lparr>cfg_api_root = None, cfg_token = Some ''tok'', cfg_branch = None,
        cfg_repo = Some ''owner/repo''\<rparr>"

definition json_response :: "nat \<Rightarrow> jsval \<Rightarrow> response" where
  "json_response st j =
     \<lparr>resp_status = st, resp_content_type = Some ''application/json'', resp_text = [],
      resp_json = Inr j\<rparr>"

definition text_response :: "nat \<Rightarrow> string \<Rightarrow> response" where
  "text_response st t =
     \<lparr>resp_status = st, resp_content_type = Some ''text/plain'', resp_text = t,
      resp_json = Inl ''Unexpected token''\<rparr>"

definition not_found_body :: jsval where
  "not_found_body = JObj [(''message'', JStr ''404 File Not Found''), (''error'', JStr ''nf'')]"

definition cached_world :: "string \<Rightarrow> jsval \<Rightarrow> world" where
  "cached_world sha v = \<lparr>cache = [(''gh.'' @ sha, v)], sent = []\<rparr>"

definition sample_file :: persistable where
  "sample_file = RawFile ''dir/My File!.md'' ''hi''"


text \<open>One file whose probe has been sent and not yet answered.\<close>

definition probing_state :: persist_state where
  "probing_state = persist_run sample_api (Some ''msg'') [Encoded 0] (persist_init sample_file [])"



definition sample_ref :: "string \<Rightarrow> fileref" where
  "sample_ref p = \<lparr>fr_path = p, fr_sha = None, fr_label = None\<rparr>"

definition two_files :: "fileref list" where
  "two_files = [sample_ref ''a.md'', sample_ref ''b.md'']"

definition twelve_files :: "fileref list" where
  "twelve_files = replicate 12 (sample_ref ''a.md'')"

definition timeout_error :: rejection where
  "timeout_error =
     Thrown_APIError \<lparr>err_message = JStr ''timeout'', err_status = None, err_api = ''GitLab''\<rparr>"

definition sample_config :: "config_value \<Rightarrow> config_value \<Rightarrow> config" where
  "sample_config r mode = \<lparr>backend_repo = r, backend_branch = NotSet, publish_mode = mode\<rparr>"




text \<open>The request that \<open>readFile\<close> makes on a cache miss.\<close>

definition blob_request :: "api \<Rightarrow> string \<Rightarrow> string option \<Rightarrow> http_request" where
  "blob_request a path branch_arg =
     request_send a (repoURL a @ ''/blobs/'' @ (case branch_arg of None \<Rightarrow> branch a | Some b \<Rightarrow> b))
       (blob_options path)"

section \<open>Path sanitization\<close>

lemma char_eq_nat: "(c = d) = ((of_char c :: nat) = of_char d)"
  by simp

lemma unsafe_char_iff: "unsafe_char c = (\<not> allowed_char c)"
proof -
  define n where "n = (of_char c :: nat)"
  have lt: "n < 256" by (simp add: n_def)
  show ?thesis
    unfolding unsafe_char_def in_class_ci_def in_class_def allowed_char_def to_lower_def to_upper_def
      is_lower_def is_upper_def is_digit_def char_eq_nat [of _ "CHR ''_''"] char_eq_nat [of _ "CHR ''-''"]
      char_eq_nat [of _ "CHR ''@''"] char_eq_nat [of _ "CHR ''.''"] char_eq_nat [of _ "CHR ''/''"]
    using lt unfolding n_def [symmetric]
    by (auto simp: n_def [symmetric])
qed

lemma replace_all_empty: "replace_all p [] s = filter (\<lambda>c. \<not> p c) s"
  by (induction s) simp_all

lemmas char_class_defs = allowed_char_def is_lower_def is_upper_def is_digit_def

text \<open>
  C5: for every path, \<open>safeFilepath\<close> removes exactly the characters outside
  \<^verbatim>\<open>[A-Za-z0-9_\-@./]\<close> and keeps every character of the set in place and in order: the
  result is the path filtered by membership in the set. The path
  \<^verbatim>\<open>dir/My File!.md\<close> becomes \<^verbatim>\<open>dir/MyFile.md\<close>.
\<close>

theorem safeFilepath_filter:
  "safeFilepath p = filter allowed_char p \<and>
   safeFilepath ''dir/My File!.md'' = ''dir/MyFile.md''"
proof -
  have eq: "\<And>q. safeFilepath q = filter allowed_char q"
    by (simp add: safeFilepath_def replace_all_empty unsafe_char_iff)
  have "filter allowed_char ''dir/My File!.md'' = ''dir/MyFile.md''"
    by (simp add: char_class_defs)
  with eq show ?thesis by simp
qed

theorem safeFilepath_filter_witness:
  "safeFilepath ''a b@c/D_e-1.md?'' = ''ab@c/D_e-1.md''"
  using safeFilepath_filter [of "''a b@c/D_e-1.md?''"] by (simp add: char_class_defs)

section \<open>The request primitive\<close>

text \<open>
  C6, as amended: for a response whose content type indicates JSON and whose body
  parses, \<open>request\<close> returns the parsed JSON when the status is in the success range;
  when it is not, \<open>parseJsonResponse\<close> rejects with the parsed JSON and \<open>request\<close>
  turns that rejection into an \<^verbatim>\<open>APIError\<close> that carries the \<^verbatim>\<open>message\<close> property of
  the parsed JSON, the status of the response and the source \<^verbatim>\<open>GitLab\<close>. For a
  response whose content type does not indicate JSON, \<open>request\<close> returns the raw text
  whatever the status is.
\<close>

theorem request_receive_by_content_type:
  "(json_content_type (resp_content_type r) \<and> resp_json r = Inr j \<and> resp_ok r \<longrightarrow>
      request_receive (Response r) = Inr j) \<and>
   (json_content_type (resp_content_type r) \<and> resp_json r = Inr j \<and> \<not> resp_ok r \<longrightarrow>
      parseJsonResponse r = Inl (Thrown_value j) \<and>
      (\<forall>m. get_prop ''message'' j = Some m \<longrightarrow>
         request_receive (Response r) =
           Inl (Thrown_APIError
                  \<lparr>err_message = m, err_status = Some (resp_status r), err_api = ''GitLab''\<rparr>))) \<and>
   (\<not> json_content_type (resp_content_type r) \<longrightarrow>
      request_receive (Response r) = Inr (JStr (resp_text r)))"
  by (simp add: request_receive_def parseJsonResponse_def request_catch_def)

theorem request_receive_by_content_type_witness:
  "request_receive (Response (json_response 200 not_found_body)) = Inr not_found_body \<and>
   parseJsonResponse (json_response 404 not_found_body) = Inl (Thrown_value not_found_body) \<and>
   request_receive (Response (json_response 404 not_found_body)) =
     Inl (Thrown_APIError
            \<lparr>err_message = JStr ''404 File Not Found'', err_status = Some 404, err_api = ''GitLab''\<rparr>) \<and>
   request_receive (Response (text_response 500 ''oops'')) = Inr (JStr ''oops'')"
  using request_receive_by_content_type [of "json_response 200 not_found_body" not_found_body]
    request_receive_by_content_type [of "json_response 404 not_found_body" not_found_body]
    request_receive_by_content_type [of "text_response 500 ''oops''" not_found_body]
  by (simp add: json_response_def text_response_def not_found_body_def resp_ok_def)

text \<open>
  C6 as stated fails: a JSON response with status 404 does not make \<open>request\<close> fail
  with the parsed JSON as the payload of the error.
\<close>

theorem request_json_error_counterexample:
  "json_content_type (resp_content_type (json_response 404 not_found_body)) \<and>
   resp_json (json_response 404 not_found_body) = Inr not_found_body \<and>
   \<not> resp_ok (json_response 404 not_found_body) \<and>
   request_receive (Response (json_response 404 not_found_body)) \<noteq> Inl (Thrown_value not_found_body)"
  by (simp add: json_response_def not_found_body_def resp_ok_def request_receive_def
      parseJsonResponse_def request_catch_def)

section \<open>The content cache\<close>

lemma blob_request_url:
  "req_url (blob_request a path b) =
     api_root a @ repoURL a @ ''/blobs/'' @ (case b of None \<Rightarrow> branch a | Some b' \<Rightarrow> b') @
       ''?filepath='' @ encodeURIComponent path"
  by (simp add: blob_request_def request_send_def urlFor_def blob_options_def)

lemma readFile_hit:
  "cache_key sha = Some k \<Longrightarrow> truthy (getItem w k) \<Longrightarrow>
     readFile a net w path sha b = (Inr (getItem w k), w)"
  by (simp add: readFile_def)

lemma readFile_miss:
  assumes "cache_key sha = None \<or> (\<exists>k. cache_key sha = Some k \<and> \<not> truthy (getItem w k))"
  shows "fst (readFile a net w path sha b) = request_receive (net (blob_request a path b))"
    and "sent (snd (readFile a net w path sha b)) = sent w @ [blob_request a path b]"
    and "cache (snd (readFile a net w path sha b)) =
          (case (cache_key sha, request_receive (net (blob_request a path b))) of
             (Some k, Inr result) \<Rightarrow> set_prop k result (cache w)
           | _ \<Rightarrow> cache w)"
proof -
  from assms have nt: "\<not> truthy (case cache_key sha of None \<Rightarrow> JNull | Some k \<Rightarrow> getItem w k)"
    by (auto split: option.splits)
  show "fst (readFile a net w path sha b) = request_receive (net (blob_request a path b))"
    using nt by (simp add: readFile_def request_def blob_request_def Let_def split: sum.splits)
  show "sent (snd (readFile a net w path sha b)) = sent w @ [blob_request a path b]"
    using nt by (simp add: readFile_def request_def blob_request_def setItem_def Let_def
        split: sum.splits option.splits)
  show "cache (snd (readFile a net w path sha b)) =
        (case (cache_key sha, request_receive (net (blob_request a path b))) of
           (Some k, Inr result) \<Rightarrow> set_prop k result (cache w)
         | _ \<Rightarrow> cache w)"
    using nt by (simp add: readFile_def request_def blob_request_def setItem_def Let_def
        split: sum.splits option.splits)
qed

text \<open>
  C4 does not hold of the code: \<open>readFile\<close> tests the cached value with \<^verbatim>\<open>if (cached)\<close>,
  which an empty blob fails. With the empty blob stored under the hash \<^verbatim>\<open>h1\<close> (as
  \<open>readFile\<close> itself stores it after reading an empty file), the call with that hash
  makes a request against the blob endpoint and stores the result again. With a
  non-empty blob under the same key the entry is returned and no request is made.
\<close>

theorem readFile_empty_entry_refetched:
  "cache_key (Some ''h1'') = Some ''gh.h1'' \<and>
   map_of (cache (cached_world ''h1'' (JStr []))) ''gh.h1'' = Some (JStr []) \<and>
   sent (snd (readFile sample_api (\<lambda>q. Response (text_response 200 [])) (cached_world ''h1'' (JStr []))
      ''a.md'' (Some ''h1'') None)) =
     [blob_request sample_api ''a.md'' None] \<and>
   cache (snd (readFile sample_api (\<lambda>q. Response (text_response 200 [])) (cached_world ''h1'' (JStr []))
      ''a.md'' (Some ''h1'') None)) = [(''gh.h1'', JStr [])] \<and>
   readFile sample_api (\<lambda>q. Response (text_response 200 [])) (cached_world ''h1'' (JStr ''X''))
      ''a.md'' (Some ''h1'') None = (Inr (JStr ''X''), cached_world ''h1'' (JStr ''X''))"
  using readFile_miss(2,3) [of "Some ''h1''" "cached_world ''h1'' (JStr [])" sample_api
      "\<lambda>q. Response (text_response 200 [])" "''a.md''" None]
    readFile_hit [of "Some ''h1''" "''gh.h1''" "cached_world ''h1'' (JStr ''X'')" sample_api
      "\<lambda>q. Response (text_response 200 [])" "''a.md''" None]
  by (simp add: cached_world_def getItem_def text_response_def request_receive_def)

section \<open>Persisting files\<close>

lemma is_commit_simps [simp]:
  "is_commit (commit_request a msg acts)" "\<not> is_commit (getFile_request a p)"
  by (simp_all add: is_commit_def commit_request_def getFile_request_def request_send_def
      commit_options_def getFile_options_def no_options_def)

lemma actions_of_commit [simp]:
  "actions_of (commit_request a msg acts) = map fileObj_json acts"
  by (simp add: commit_request_def request_send_def commit_options_def no_options_def opt_field_def
      split: option.splits)

lemma probe_handlers_Inr:
  "probe_handlers r fo = Inr fo' \<Longrightarrow>
     fo' = fo\<lparr>action := Some ''update''\<rparr> \<or> fo' = fo\<lparr>action := Some ''create''\<rparr>"
  by (cases r) (auto split: sum.splits if_splits)


lemma chain_step_inv:
  "chain_inv a msg c rs \<Longrightarrow> chain_step a msg c pl = (c', reqs) \<Longrightarrow> chain_inv a msg c' (rs @ reqs)"
  by (cases pl; cases "ch_stage c")
    (auto simp: chain_inv_def committed_def not_committed_def
      split: sum.splits if_splits elim!: after_probe.elims dest!: probe_handlers_Inr)

lemma chain_step_count:
  "chain_inv a msg c rs \<Longrightarrow> chain_step a msg c pl = (c', reqs) \<Longrightarrow>
     length (filter is_commit reqs) + (if has_action c then 1 else 0) = (if has_action c' then 1 else 0)"
  by (cases pl; cases "ch_stage c")
    (auto simp: chain_inv_def committed_def not_committed_def has_action_def
      split: sum.splits if_splits elim!: after_probe.elims dest!: probe_handlers_Inr)

lemma chain_step_settled:
  "ch_stage c = Resolved v \<or> ch_stage c = Rejected e \<Longrightarrow> chain_step a msg c pl = (c, [])"
  by (cases pl) auto


lemma all_values_nth:
  "all_values sts = Some vs \<Longrightarrow> length vs = length sts \<and> (\<forall>i < length sts. sts ! i = Resolved (vs ! i))"
proof (induction sts arbitrary: vs)
  case Nil
  then show ?case by simp
next
  case (Cons st sts)
  then obtain v ws where st: "st = Resolved v" and ws: "all_values sts = Some ws" and vs: "vs = v # ws"
    by (cases st) (auto split: option.splits)
  from Cons.IH [OF ws] show ?case
    by (auto simp: st vs nth_Cons split: nat.splits)
qed

lemma filter_update_count:
  "i < length xs \<Longrightarrow>
     length (filter P (xs[i := y])) + (if P (xs ! i) then 1 else 0) =
     length (filter P xs) + (if P y then 1 else 0)"
proof (induction xs arbitrary: i)
  case Nil
  then show ?case by simp
next
  case (Cons x xs)
  then show ?case by (cases i) auto
qed

lemma persist_step_out_of_range:
  "\<not> event_chain ev < length (chains s) \<Longrightarrow> persist_step a msg ev s = s"
  by (simp add: persist_step_def)

lemma persist_step_chains:
  "event_chain ev < length (chains s) \<Longrightarrow>
     chain_step a msg (chains s ! event_chain ev) (event_payload ev) = (c', reqs) \<Longrightarrow>
     chains (persist_step a msg ev s) = (chains s)[event_chain ev := c']"
  by (simp add: persist_step_def Let_def)

lemma persist_step_requests:
  "event_chain ev < length (chains s) \<Longrightarrow>
     chain_step a msg (chains s ! event_chain ev) (event_payload ev) = (c', reqs) \<Longrightarrow>
     requests (persist_step a msg ev s) = requests s @ map (Pair (event_chain ev)) reqs"
  by (simp add: persist_step_def Let_def)

lemma persist_step_outcome:
  "event_chain ev < length (chains s) \<Longrightarrow>
     chain_step a msg (chains s ! event_chain ev) (event_payload ev) = (c', reqs) \<Longrightarrow>
     outcome (persist_step a msg ev s) =
       (if ch_stage c' = ch_stage (chains s ! event_chain ev) then outcome s
        else promise_all (outcome s) (ch_stage c')
               (map ch_stage ((chains s)[event_chain ev := c'])))"
  by (simp add: persist_step_def Let_def)

lemma filter_tagged:
  "map snd (filter (\<lambda>p. fst p = j) (map (Pair i) reqs)) = (if j = i then reqs else [])"
  by (induction reqs) auto

lemma requests_of_step:
  assumes "event_chain ev < length (chains s)"
    and "chain_step a msg (chains s ! event_chain ev) (event_payload ev) = (c', reqs)"
  shows "requests_of j (persist_step a msg ev s) =
           requests_of j s @ (if j = event_chain ev then reqs else [])"
  using persist_step_requests [OF assms] by (simp add: requests_of_def filter_tagged)

lemma commit_count_step:
  assumes "event_chain ev < length (chains s)"
    and "chain_step a msg (chains s ! event_chain ev) (event_payload ev) = (c', reqs)"
  shows "commit_count (persist_step a msg ev s) = commit_count s + length (filter is_commit reqs)"
proof -
  have "length (filter (\<lambda>p. is_commit (snd p)) (map (Pair i) rs)) = length (filter is_commit rs)"
    for i :: nat and rs
    by (induction rs) auto
  then show ?thesis
    using persist_step_requests [OF assms] by (simp add: commit_count_def)
qed

lemma persist_inv_step:
  assumes inv: "persist_inv a msg s"
  shows "persist_inv a msg (persist_step a msg ev s)"
proof (cases "event_chain ev < length (chains s)")
  case False
  then show ?thesis using inv by (simp add: persist_step_out_of_range)
next
  case True
  define i where "i = event_chain ev"
  obtain c' reqs where cs: "chain_step a msg (chains s ! event_chain ev) (event_payload ev) = (c', reqs)"
    by (cases "chain_step a msg (chains s ! event_chain ev) (event_payload ev)")
  let ?s' = "persist_step a msg ev s"
  note ch = persist_step_chains [OF True cs]
  note rq = persist_step_requests [OF True cs]
  note ro = requests_of_step [OF True cs]
  have ci: "chain_inv a msg (chains s ! event_chain ev) (requests_of (event_chain ev) s)"
    using inv True by (simp add: persist_inv_def)
  have 1: "\<forall>j < length (chains ?s'). chain_inv a msg (chains ?s' ! j) (requests_of j ?s')"
  proof (intro allI impI)
    fix j assume j: "j < length (chains ?s')"
    then have j': "j < length (chains s)" by (simp add: ch)
    show "chain_inv a msg (chains ?s' ! j) (requests_of j ?s')"
    proof (cases "j = event_chain ev")
      case True
      then show ?thesis
        using chain_step_inv [OF ci cs] j' by (simp add: ch ro)
    next
      case False
      then show ?thesis
        using inv j' by (simp add: ch ro persist_inv_def)
    qed
  qed
  have 2: "\<forall>p \<in> set (requests ?s'). fst p < length (chains ?s')"
    using inv True by (auto simp: rq ch persist_inv_def)
  have 3: "commit_count ?s' = length (filter has_action (chains ?s'))"
    using chain_step_count [OF ci cs] filter_update_count [OF True, of has_action c'] inv
    by (simp add: commit_count_step [OF True cs] ch persist_inv_def split: if_splits)
  have 4: "\<forall>vs. outcome ?s' = Some (Inr vs) \<longrightarrow> all_values (map ch_stage (chains ?s')) = Some vs"
  proof (intro allI impI)
    fix vs assume o: "outcome ?s' = Some (Inr vs)"
    show "all_values (map ch_stage (chains ?s')) = Some vs"
    proof (cases "ch_stage c' = ch_stage (chains s ! event_chain ev)")
      case same: True
      then have "map ch_stage (chains ?s') = map ch_stage (chains s)"
        using True by (simp add: ch map_update list_update_same_conv)
      moreover have "outcome s = Some (Inr vs)"
        using o same by (simp add: persist_step_outcome [OF True cs])
      ultimately show ?thesis using inv by (simp add: persist_inv_def)
    next
      case changed: False
      show ?thesis
      proof (cases "outcome s")
        case None
        then show ?thesis
          using o changed
          by (simp add: persist_step_outcome [OF True cs] promise_all_def ch
              split: stage.splits option.splits)
      next
        case (Some r)
        then have "outcome s = Some (Inr vs)"
          using o changed by (simp add: persist_step_outcome [OF True cs] promise_all_def)
        then have "all_values (map ch_stage (chains s)) = Some vs"
          using inv by (simp add: persist_inv_def)
        from all_values_nth [OF this] True
        have "ch_stage (chains s ! event_chain ev) = Resolved (vs ! event_chain ev)" by simp
        from chain_step_settled [OF disjI1, OF this] cs changed show ?thesis by simp
      qed
    qed
  qed
  from 1 2 3 4 show ?thesis by (simp add: persist_inv_def)
qed

lemma persist_inv_init: "persist_inv a msg (persist_init entry mediaFiles)"
  by (auto simp: persist_inv_def persist_init_def chain_inv_def new_chain_def requests_of_def
      commit_count_def has_action_def nth_append filter_empty_conv)

lemma persist_inv_run:
  "persist_inv a msg s \<Longrightarrow> persist_inv a msg (persist_run a msg evs s)"
  unfolding persist_run_def
  by (induction evs arbitrary: s) (simp_all add: persist_inv_step)

lemma persist_inv_reachable:
  "persist_inv a msg (persist_run a msg evs (persist_init entry mediaFiles))"
  by (simp add: persist_inv_run persist_inv_init)


lemma persist_step_length [simp]:
  "length (chains (persist_step a msg ev s)) = length (chains s)"
  by (cases "event_chain ev < length (chains s)")
    (auto simp: persist_step_def Let_def split: prod.splits)

lemma persist_run_length [simp]:
  "length (chains (persist_run a msg evs s)) = length (chains s)"
  unfolding persist_run_def by (induction evs arbitrary: s) simp_all



lemma settled_step:
  assumes "i < length (chains s)"
    and "ch_stage (chains s ! i) = Resolved v \<or> ch_stage (chains s ! i) = Rejected e"
  shows "chains (persist_step a msg ev s) ! i = chains s ! i \<and>
         requests_of i (persist_step a msg ev s) = requests_of i s"
proof (cases "event_chain ev < length (chains s)")
  case False
  then show ?thesis by (simp add: persist_step_out_of_range)
next
  case True
  obtain c' reqs where cs: "chain_step a msg (chains s ! event_chain ev) (event_payload ev) = (c', reqs)"
    by (cases "chain_step a msg (chains s ! event_chain ev) (event_payload ev)")
  show ?thesis
  proof (cases "event_chain ev = i")
    case same: True
    with chain_step_settled [OF assms(2), of a msg "event_payload ev"] cs
    have "c' = chains s ! i" "reqs = []" by simp_all
    then show ?thesis
      using True same by (simp add: persist_step_chains [OF True cs] requests_of_step [OF True cs])
  next
    case False
    then show ?thesis
      by (simp add: persist_step_chains [OF True cs] requests_of_step [OF True cs])
  qed
qed

lemma settled_run:
  assumes "i < length (chains s)"
    and "ch_stage (chains s ! i) = Resolved v \<or> ch_stage (chains s ! i) = Rejected e"
  shows "chains (persist_run a msg evs s) ! i = chains s ! i \<and>
         requests_of i (persist_run a msg evs s) = requests_of i s"
  using assms unfolding persist_run_def
proof (induction evs arbitrary: s)
  case Nil
  then show ?case by simp
next
  case (Cons ev evs)
  from settled_step [OF Cons.prems, of a msg ev]
  have st: "chains (persist_step a msg ev s) ! i = chains s ! i"
    "requests_of i (persist_step a msg ev s) = requests_of i s" by simp_all
  have "chains (fold (persist_step a msg) evs (persist_step a msg ev s)) ! i =
          chains (persist_step a msg ev s) ! i \<and>
        requests_of i (fold (persist_step a msg) evs (persist_step a msg ev s)) =
          requests_of i (persist_step a msg ev s)"
    using Cons.prems st by (intro Cons.IH) simp_all
  with st show ?case by simp
qed

lemma request_receive_status:
  "request_receive fr = Inl err \<Longrightarrow> \<exists>st. rejection_status err = Inr st"
  by (cases fr)
    (auto simp: request_receive_def request_catch_def parseJsonResponse_def type_error_def Let_def
      split: sum.splits if_splits option.splits)

lemma probing_step:
  assumes i: "i < length (chains s)" and st: "ch_stage (chains s ! i) = Probing"
  shows "chains (persist_step a msg (Delivered i fr) s) ! i =
           fst (after_probe a msg (chains s ! i)
                  (probe_handlers (request_receive fr) (ch_fileObj (chains s ! i))))"
    and "requests (persist_step a msg (Delivered i fr) s) =
           requests s @ map (Pair i) (snd (after_probe a msg (chains s ! i)
                  (probe_handlers (request_receive fr) (ch_fileObj (chains s ! i)))))"
  using i st by (simp_all add: persist_step_def Let_def split: prod.splits)

lemma probing_step_rejected:
  assumes "i < length (chains s)" and "ch_stage (chains s ! i) = Probing"
    and "outcome s = None"
    and "after_probe a msg (chains s ! i)
           (probe_handlers (request_receive fr) (ch_fileObj (chains s ! i))) = (c', reqs)"
    and "ch_stage c' = Rejected err"
  shows "outcome (persist_step a msg (Delivered i fr) s) = Some (Inl err)"
  using assms by (simp add: persist_step_def Let_def promise_all_def)

text \<open>
  C1: take any point of any schedule of \<open>persistFiles\<close> at which the probe of file \<open>i\<close> is
  pending, and let the answer to the probe arrive. If \<open>getFile\<close> succeeds, the action
  of the file is \<^verbatim>\<open>update\<close> and its commit is requested. If \<open>getFile\<close> fails with an error
  whose status is 404, the action is \<^verbatim>\<open>create\<close> and its commit is requested. If \<open>getFile\<close>
  fails with any other error, the promise of that file is rejected with that error, no
  request is made then or at any later point of the schedule (the only request of the
  file remains its probe, so no commit request is ever issued for it), and when no
  other file has failed before, \<open>persistFiles\<close> itself fails with that error.
\<close>

theorem persistFiles_probe_decides_action:
  assumes reach: "s = persist_run a msg evs (persist_init entry mediaFiles)"
    and i: "i < length (chains s)"
    and st: "ch_stage (chains s ! i) = Probing"
    and s': "s' = persist_step a msg (Delivered i fr) s"
  shows "(\<forall>v. request_receive fr = Inr v \<longrightarrow>
            ch_stage (chains s' ! i) = Committing \<and>
            action (ch_fileObj (chains s' ! i)) = Some ''update'' \<and>
            requests s' = requests s @ [(i, commit_request a msg [ch_fileObj (chains s' ! i)])]) \<and>
         (\<forall>err. request_receive fr = Inl err \<and> rejection_status err = Inr (JNum 404) \<longrightarrow>
            ch_stage (chains s' ! i) = Committing \<and>
            action (ch_fileObj (chains s' ! i)) = Some ''create'' \<and>
            requests s' = requests s @ [(i, commit_request a msg [ch_fileObj (chains s' ! i)])]) \<and>
         (\<forall>err. request_receive fr = Inl err \<and> rejection_status err \<noteq> Inr (JNum 404) \<longrightarrow>
            ch_stage (chains s' ! i) = Rejected err \<and>
            requests s' = requests s \<and>
            (outcome s = None \<longrightarrow> outcome s' = Some (Inl err)) \<and>
            (\<forall>evs'. ch_stage (chains (persist_run a msg evs' s') ! i) = Rejected err \<and>
                    requests_of i (persist_run a msg evs' s') =
                      [getFile_request a (path_of (ch_file (chains s ! i)))] \<and>
                    filter is_commit (requests_of i (persist_run a msg evs' s')) = []))"
proof (intro conjI allI impI)
  fix v assume "request_receive fr = Inr v"
  then show "ch_stage (chains s' ! i) = Committing"
    "action (ch_fileObj (chains s' ! i)) = Some ''update''"
    "requests s' = requests s @ [(i, commit_request a msg [ch_fileObj (chains s' ! i)])]"
    using probing_step(1,2) [OF i st, of a msg fr] by (simp_all add: s')
next
  fix err assume "request_receive fr = Inl err \<and> rejection_status err = Inr (JNum 404)"
  then show "ch_stage (chains s' ! i) = Committing"
    "action (ch_fileObj (chains s' ! i)) = Some ''create''"
    "requests s' = requests s @ [(i, commit_request a msg [ch_fileObj (chains s' ! i)])]"
    using probing_step(1,2) [OF i st, of a msg fr] by (simp_all add: s')
next
  fix err assume fatal: "request_receive fr = Inl err \<and> rejection_status err \<noteq> Inr (JNum 404)"
  then obtain code where code: "rejection_status err = Inr code" "code \<noteq> JNum 404"
    using request_receive_status [of fr err] by auto
  have ap: "after_probe a msg (chains s ! i)
              (probe_handlers (request_receive fr) (ch_fileObj (chains s ! i))) =
            ((chains s ! i)\<lparr>ch_stage := Rejected err\<rparr>, [])"
    using fatal code by simp
  show rej: "ch_stage (chains s' ! i) = Rejected err"
    using probing_step(1) [OF i st, of a msg fr] ap by (simp add: s')
  show same: "requests s' = requests s"
    using probing_step(2) [OF i st, of a msg fr] ap by (simp add: s')
  show "outcome s' = Some (Inl err)" if "outcome s = None"
    using probing_step_rejected [OF i st that ap] by (simp add: s')
  have inv: "chain_inv a msg (chains s ! i) (requests_of i s)"
    using persist_inv_reachable [of a msg evs entry mediaFiles] i by (simp add: reach persist_inv_def)
  then have rs: "requests_of i s = [getFile_request a (path_of (ch_file (chains s ! i)))]"
    using st by (simp add: chain_inv_def)
  have rs': "requests_of i s' = requests_of i s"
    using same by (simp add: requests_of_def)
  have i': "i < length (chains s')" using i by (simp add: s')
  fix evs'
  from settled_run [OF i' disjI2, OF rej, of a msg evs']
  show "ch_stage (chains (persist_run a msg evs' s') ! i) = Rejected err"
    "requests_of i (persist_run a msg evs' s') = [getFile_request a (path_of (ch_file (chains s ! i)))]"
    "filter is_commit (requests_of i (persist_run a msg evs' s')) = []"
    using rej rs rs' by simp_all
qed


lemma probing_state_facts:
  "chains probing_state =
     [\<lparr>ch_file = sample_file,
       ch_fileObj = \<lparr>file_path = ''dir/MyFile.md'', content = Some ''aGk='',
                     encoding = Some ''base64'', action = None\<rparr>,
       ch_stage = Probing\<rparr>]"
  "requests probing_state = [(0, getFile_request sample_api ''dir/My File!.md'')]"
  "outcome probing_state = None"
  by (simp_all add: probing_state_def persist_run_def persist_step_def persist_init_def
      new_chain_def sample_file_def Let_def safeFilepath_def replace_all_empty unsafe_char_iff
      allowed_char_def is_lower_def is_upper_def is_digit_def
      Base64_encode_def b64_char_def b64_alphabet_def promise_all_def)

theorem persistFiles_probe_decides_action_witness:
  "action (ch_fileObj (chains (persist_step sample_api (Some ''msg'')
       (Delivered 0 (Response (json_response 200 (JObj [])))) probing_state) ! 0)) = Some ''update'' \<and>
   action (ch_fileObj (chains (persist_step sample_api (Some ''msg'')
       (Delivered 0 (Response (json_response 404 not_found_body))) probing_state) ! 0)) = Some ''create'' \<and>
   ch_stage (chains (persist_step sample_api (Some ''msg'')
       (Delivered 0 (Response (json_response 500 not_found_body))) probing_state) ! 0) =
     Rejected (Thrown_APIError \<lparr>err_message = JStr ''404 File Not Found'', err_status = Some 500,
                                err_api = ''GitLab''\<rparr>) \<and>
   requests (persist_step sample_api (Some ''msg'')
       (Delivered 0 (Response (json_response 500 not_found_body))) probing_state) =
     [(0, getFile_request sample_api ''dir/My File!.md'')] \<and>
   outcome (persist_step sample_api (Some ''msg'')
       (Delivered 0 (Response (json_response 500 not_found_body))) probing_state) =
     Some (Inl (Thrown_APIError \<lparr>err_message = JStr ''404 File Not Found'', err_status = Some 500,
                                  err_api = ''GitLab''\<rparr>))"
proof -
  have i: "0 < length (chains probing_state)"
    and st: "ch_stage (chains probing_state ! 0) = Probing"
    by (simp_all add: probing_state_facts)
  note inst = persistFiles_probe_decides_action [OF probing_state_def i st refl]
  have rr: "request_receive (Response (json_response 200 (JObj []))) = Inr (JObj [])"
    "request_receive (Response (json_response 404 not_found_body)) =
       Inl (Thrown_APIError \<lparr>err_message = JStr ''404 File Not Found'', err_status = Some 404,
                               err_api = ''GitLab''\<rparr>)"
    "request_receive (Response (json_response 500 not_found_body)) =
       Inl (Thrown_APIError \<lparr>err_message = JStr ''404 File Not Found'', err_status = Some 500,
                               err_api = ''GitLab''\<rparr>)"
    by (simp_all add: request_receive_def json_response_def parseJsonResponse_def resp_ok_def
        request_catch_def not_found_body_def)
  show ?thesis
    using inst [of "Response (json_response 200 (JObj []))"]
      inst [of "Response (json_response 404 not_found_body)"]
      inst [of "Response (json_response 500 not_found_body)"]
    by (simp add: rr probing_state_facts)
qed

text \<open>
  C2 does not hold of the code: the probe is \<^verbatim>\<open>this.getFile(file.path)\<close>, on the path as
  given, while the commit carries \<^verbatim>\<open>this.safeFilepath(file.path)\<close>. For the file
  \<^verbatim>\<open>dir/My File!.md\<close> the probe asks for \<^verbatim>\<open>dir/My File!.md\<close> and the \<open>fileObj\<close> of the commit
  names \<^verbatim>\<open>dir/MyFile.md\<close>.
\<close>

theorem persistFiles_probe_path_evaluated:
  "requests (persist_run sample_api (Some ''msg'') [Encoded 0] (persist_init sample_file [])) =
     [(0, getFile_request sample_api ''dir/My File!.md'')] \<and>
   opt_params (req_init (getFile_request sample_api ''dir/My File!.md'')) =
     Some [(''file_path'', ''dir/My File!.md''), (''ref'', ''master'')] \<and>
   map (\<lambda>c. file_path (ch_fileObj c))
     (chains (persist_run sample_api (Some ''msg'') [Encoded 0] (persist_init sample_file []))) =
     [''dir/MyFile.md''] \<and>
   safeFilepath ''dir/My File!.md'' \<noteq> ''dir/My File!.md''"
proof -
  have params: "opt_params (req_init (getFile_request a p)) = Some [(''file_path'', p), (''ref'', branch a)]"
    for a p
    by (simp add: getFile_request_def request_send_def getFile_options_def no_options_def)
  have br: "branch sample_api = ''master''"
    by (simp add: sample_api_def API_constructor_def Let_def)
  have neq: "safeFilepath ''dir/My File!.md'' \<noteq> ''dir/My File!.md''"
    by (simp add: safeFilepath_def replace_all_empty unsafe_char_iff
        allowed_char_def is_lower_def is_upper_def is_digit_def)
  show ?thesis
    using probing_state_facts neq by (simp add: probing_state_def [symmetric] params br)
qed


















section \<open>Fetching files\<close>

declare fetch_step.simps [simp del]

lemma fold_push_promise:
  "fold push_promise [0 ..< n] (new_semaphore c, []) =
     (\<lparr>capacity = int c, current = int (min n c), queue = [c ..< n]\<rparr>,
      replicate (min n c) Reading @ replicate (n - c) Waiting)"
proof (induction n)
  case 0
  then show ?case by (simp add: new_semaphore_def)
next
  case (Suc n)
  have step: "fold push_promise [0 ..< Suc n] (new_semaphore c, []) =
          push_promise n (\<lparr>capacity = int c, current = int (min n c), queue = [c ..< n]\<rparr>,
            replicate (min n c) Reading @ replicate (n - c) Waiting)"
    by (simp add: Suc)
  show ?case
  proof (cases "n < c")
    case True
    then show ?thesis
      unfolding step
      by (simp add: push_promise_def take_permit_def min_def replicate_append_same)
  next
    case False
    then have "replicate (n - c) Waiting @ [Waiting] = replicate (Suc n - c) Waiting"
      by (simp add: replicate_append_same Suc_diff_le)
    with False show ?thesis
      unfolding step
      by (simp add: push_promise_def take_permit_def min_def)
  qed
qed

lemma fetch_init_eq:
  "fetch_init files =
     \<lparr>fs_files = files,
      fs_sem = \<lparr>capacity = int MAX_CONCURRENT_DOWNLOADS,
                current = int (min (length files) MAX_CONCURRENT_DOWNLOADS),
                queue = [MAX_CONCURRENT_DOWNLOADS ..< length files]\<rparr>,
      fs_reads = replicate (min (length files) MAX_CONCURRENT_DOWNLOADS) Reading @
                 replicate (length files - MAX_CONCURRENT_DOWNLOADS) Waiting,
      fs_result = (if files = [] then Some (Inr []) else None)\<rparr>"
proof -
  have "all_done (replicate (min (length files) c) Reading @ replicate (length files - c) Waiting) =
          (if files = [] then Some [] else None)" for c
    by (cases files; cases c) (simp_all add: min_def)
  then show ?thesis
    by (simp add: fetch_init_def fold_push_promise Let_def)
qed


lemma sem_inv_init: "sem_inv (fetch_init files)"
  by (auto simp: fetch_init_eq sem_inv_def reading_def nth_append min_def)

lemma join_inv_init: "join_inv (fetch_init files)"
  by (auto simp: fetch_init_eq join_inv_def nth_append)

lemma delivered_init: "delivered [] (fetch_init files)"
  by (auto simp: fetch_init_eq delivered_def nth_append)

lemma fetch_step_view:
  fixes out :: "rejection + jsval"
  assumes en: "i < length (fs_reads s)" "fs_reads s ! i = Reading"
    and inv: "sem_inv s"
  defines "st \<equiv> settled_state (fs_files s ! i) out"
    and "s' \<equiv> fetch_step (Complete i out) s"
  shows "fs_files s' = fs_files s"
    and "fs_sem s' = (case queue (fs_sem s) of
                        [] \<Rightarrow> (fs_sem s)\<lparr>current := current (fs_sem s) - 1\<rparr>
                      | j # rest \<Rightarrow> (fs_sem s)\<lparr>queue := rest\<rparr>)"
    and "fs_reads s' = (case queue (fs_sem s) of
                          [] \<Rightarrow> (fs_reads s)[i := st]
                        | j # rest \<Rightarrow> (fs_reads s)[i := st, j := Reading])"
    and "fs_result s' = join_reads (fs_result s) st ((fs_reads s)[i := st])"
proof -
  have full: "queue (fs_sem s) \<noteq> [] \<Longrightarrow> current (fs_sem s) = capacity (fs_sem s)"
    using inv by (simp add: sem_inv_def)
  have ne: "j \<noteq> i" if "queue (fs_sem s) = j # rest" for j rest
  proof
    assume "j = i"
    with that have "i \<in> set (queue (fs_sem s))" by simp
    with inv have "fs_reads s ! i = Waiting" by (simp add: sem_inv_def)
    with en show False by simp
  qed
  show "fs_files s' = fs_files s"
    using en unfolding s'_def
    by (cases out; cases "queue (fs_sem s)")
      (simp_all add: fetch_step.simps sem_leave_def settle_read_def leave_def Let_def split: prod.splits)
  show "fs_sem s' = (case queue (fs_sem s) of
                        [] \<Rightarrow> (fs_sem s)\<lparr>current := current (fs_sem s) - 1\<rparr>
                      | j # rest \<Rightarrow> (fs_sem s)\<lparr>queue := rest\<rparr>)"
    using en full unfolding s'_def
    by (cases out; cases "queue (fs_sem s)")
      (simp_all add: fetch_step.simps sem_leave_def settle_read_def leave_def Let_def)
  show "fs_reads s' = (case queue (fs_sem s) of
                          [] \<Rightarrow> (fs_reads s)[i := st]
                        | j # rest \<Rightarrow> (fs_reads s)[i := st, j := Reading])"
    using en full ne unfolding s'_def st_def
    by (cases out; cases "queue (fs_sem s)")
      (simp_all add: fetch_step.simps sem_leave_def settle_read_def leave_def Let_def list_update_swap)
  show "fs_result s' = join_reads (fs_result s) st ((fs_reads s)[i := st])"
    using en full unfolding s'_def st_def
    by (cases out; cases "queue (fs_sem s)")
      (simp_all add: fetch_step.simps sem_leave_def settle_read_def leave_def Let_def join_reads_def
        split: option.splits)
qed


lemma settled_state_neq [simp]:
  "settled_state f out \<noteq> Reading" "settled_state f out \<noteq> Waiting"
  by (cases out; simp)+

lemma fetch_step_disabled:
  "\<not> (i < length (fs_reads s) \<and> fs_reads s ! i = Reading) \<Longrightarrow> fetch_step (Complete i out) s = s"
  by (auto simp: fetch_step.simps)

lemma waiting_update:
  "st \<noteq> Waiting \<Longrightarrow>
     {k. k < length (xs[i := st]) \<and> xs[i := st] ! k = Waiting} =
     {k. k < length xs \<and> xs ! k = Waiting} - {i}"
proof (cases "i < length xs")
  case True
  assume "st \<noteq> Waiting"
  with True have "k < length xs \<Longrightarrow> (xs[i := st] ! k = Waiting) = (k \<noteq> i \<and> xs ! k = Waiting)" for k
    by (auto simp: nth_list_update)
  then show ?thesis by auto
next
  case False
  then show ?thesis by auto
qed

lemma sem_inv_step:
  assumes inv: "sem_inv s"
  shows "sem_inv (fetch_step ev s)"
proof (cases ev)
  case (Complete i out)
  show ?thesis
  proof (cases "i < length (fs_reads s) \<and> fs_reads s ! i = Reading")
    case False
    from fetch_step_disabled [OF this] inv show ?thesis
      by (simp add: Complete)
  next
    case True
    then have en: "i < length (fs_reads s)" "fs_reads s ! i = Reading" by simp_all
    define st where "st = settled_state (fs_files s ! i) out"
    define s' where "s' = fetch_step (Complete i out) s"
    have st: "st \<noteq> Reading" "st \<noteq> Waiting" by (simp_all add: st_def)
    note view = fetch_step_view [OF en inv, of out, folded st_def s'_def]
    have len: "length (fs_reads s) = length (fs_files s)"
      and cap: "capacity (fs_sem s) = int MAX_CONCURRENT_DOWNLOADS"
      and cur: "current (fs_sem s) = int (reading s)"
      and le: "current (fs_sem s) \<le> capacity (fs_sem s)"
      and dist: "distinct (queue (fs_sem s))"
      and qs: "set (queue (fs_sem s)) = {k. k < length (fs_reads s) \<and> fs_reads s ! k = Waiting}"
      and full: "queue (fs_sem s) \<noteq> [] \<longrightarrow> current (fs_sem s) = capacity (fs_sem s)"
      using inv unfolding sem_inv_def by blast+
    have dec: "int (length (filter (\<lambda>x. x = Reading) ((fs_reads s)[i := st]))) =
               int (reading s) - 1"
      using filter_update_count [OF en(1), of "\<lambda>x. x = Reading" st] en(2) st
      by (simp add: reading_def)
    have wait: "{k. k < length ((fs_reads s)[i := st]) \<and> (fs_reads s)[i := st] ! k = Waiting} =
                {k. k < length (fs_reads s) \<and> fs_reads s ! k = Waiting}"
      using waiting_update [OF st(2), of "fs_reads s" i] en(2) by auto
    have "sem_inv s'"
    proof (cases "queue (fs_sem s)")
      case Nil
      have sem: "fs_sem s' = (fs_sem s)\<lparr>current := current (fs_sem s) - 1\<rparr>"
        and reads: "fs_reads s' = (fs_reads s)[i := st]"
        by (simp_all add: view Nil)
      show ?thesis
        unfolding sem_inv_def
      proof (intro conjI)
        show "length (fs_reads s') = length (fs_files s')" by (simp add: reads view(1) len)
        show "capacity (fs_sem s') = int MAX_CONCURRENT_DOWNLOADS" by (simp add: sem cap)
        show "current (fs_sem s') = int (reading s')"
          using dec by (simp add: sem cur reading_def reads)
        show "current (fs_sem s') \<le> capacity (fs_sem s')" using le by (simp add: sem)
        show "distinct (queue (fs_sem s'))" using dist by (simp add: sem)
        show "set (queue (fs_sem s')) = {k. k < length (fs_reads s') \<and> fs_reads s' ! k = Waiting}"
          unfolding reads wait using qs by (simp add: sem)
        show "queue (fs_sem s') \<noteq> [] \<longrightarrow> current (fs_sem s') = capacity (fs_sem s')"
          by (simp add: sem Nil)
      qed
    next
      case (Cons j rest)
      have sem: "fs_sem s' = (fs_sem s)\<lparr>queue := rest\<rparr>"
        and reads: "fs_reads s' = (fs_reads s)[i := st, j := Reading]"
        by (simp_all add: view Cons)
      from qs dist Cons have j: "j < length (fs_reads s)" "fs_reads s ! j = Waiting" "j \<notin> set rest"
        and rest: "set rest = {k. k < length (fs_reads s) \<and> fs_reads s ! k = Waiting} - {j}"
        by auto
      from j en have ji: "j \<noteq> i" by auto
      have same: "int (length (filter (\<lambda>x. x = Reading) ((fs_reads s)[i := st, j := Reading]))) =
            int (reading s)"
        using filter_update_count [of j "(fs_reads s)[i := st]" "\<lambda>x. x = Reading" Reading] dec j ji
        by (simp add: nth_list_update)
      have wait': "{k. k < length ((fs_reads s)[i := st, j := Reading]) \<and>
                         (fs_reads s)[i := st, j := Reading] ! k = Waiting} = set rest"
        using waiting_update [of Reading "(fs_reads s)[i := st]" j] wait rest by simp
      show ?thesis
        unfolding sem_inv_def
      proof (intro conjI)
        show "length (fs_reads s') = length (fs_files s')" by (simp add: reads view(1) len)
        show "capacity (fs_sem s') = int MAX_CONCURRENT_DOWNLOADS" by (simp add: sem cap)
        show "current (fs_sem s') = int (reading s')"
          using same by (simp add: sem cur reading_def reads)
        show "current (fs_sem s') \<le> capacity (fs_sem s')" using le by (simp add: sem)
        show "distinct (queue (fs_sem s'))" using dist Cons by (simp add: sem)
        show "set (queue (fs_sem s')) = {k. k < length (fs_reads s') \<and> fs_reads s' ! k = Waiting}"
          unfolding reads wait' by (simp add: sem)
        show "queue (fs_sem s') \<noteq> [] \<longrightarrow> current (fs_sem s') = capacity (fs_sem s')"
          using full Cons by (simp add: sem)
      qed
    qed
    then show ?thesis by (simp add: Complete s'_def)
  qed
qed


lemma all_done_nth:
  "all_done sts = Some fs \<Longrightarrow> length fs = length sts \<and> (\<forall>k < length sts. sts ! k = Done (fs ! k))"
proof (induction sts arbitrary: fs)
  case Nil
  then show ?case by simp
next
  case (Cons st sts)
  then obtain f gs where st: "st = Done f" and gs: "all_done sts = Some gs" and fs: "fs = f # gs"
    by (cases st) (auto split: option.splits)
  from Cons.IH [OF gs] show ?case
    by (auto simp: st fs nth_Cons split: nat.splits)
qed

lemma reads_after:
  fixes out :: "rejection + jsval"
  assumes en: "i < length (fs_reads s)" "fs_reads s ! i = Reading"
    and inv: "sem_inv s"
  defines "s' \<equiv> fetch_step (Complete i out) s"
  shows "length (fs_reads s') = length (fs_reads s)"
    and "k < length (fs_reads s) \<Longrightarrow>
           fs_reads s' ! k =
             (if k = i then settled_state (fs_files s ! i) out
              else if (\<exists>rest. queue (fs_sem s) = k # rest) then Reading
              else fs_reads s ! k)"
proof -
  note view = fetch_step_view [OF en inv, of out, folded s'_def]
  have ne: "j \<noteq> i \<and> j < length (fs_reads s)" if "queue (fs_sem s) = j # rest" for j rest
  proof -
    from that have "j \<in> set (queue (fs_sem s))" by simp
    with inv have "j < length (fs_reads s) \<and> fs_reads s ! j = Waiting" by (simp add: sem_inv_def)
    with en show ?thesis by auto
  qed
  show "length (fs_reads s') = length (fs_reads s)"
    by (simp add: view split: list.splits)
  show "fs_reads s' ! k =
             (if k = i then settled_state (fs_files s ! i) out
              else if (\<exists>rest. queue (fs_sem s) = k # rest) then Reading
              else fs_reads s ! k)" if "k < length (fs_reads s)"
    using that ne by (cases "queue (fs_sem s)") (auto simp: view nth_list_update)
qed

lemma join_inv_step:
  assumes inv: "sem_inv s" and jinv: "join_inv s"
  shows "join_inv (fetch_step ev s)"
proof (cases ev)
  case (Complete i out)
  show ?thesis
  proof (cases "i < length (fs_reads s) \<and> fs_reads s ! i = Reading")
    case False
    from fetch_step_disabled [OF this] jinv show ?thesis
      by (simp add: Complete)
  next
    case True
    then have en: "i < length (fs_reads s)" "fs_reads s ! i = Reading" by simp_all
    define st where "st = settled_state (fs_files s ! i) out"
    define s' where "s' = fetch_step (Complete i out) s"
    note view = fetch_step_view [OF en inv, of out, folded st_def s'_def]
    note after = reads_after [OF en inv, where out = out, folded st_def s'_def]
    have j1: "fs_result s = None \<Longrightarrow> Failed err \<notin> set (fs_reads s)" for err
      using jinv unfolding join_inv_def by blast
    have j2: "fs_result s = Some (Inl err) \<Longrightarrow> Failed err \<in> set (fs_reads s)" for err
      using jinv unfolding join_inv_def by blast
    have j3: "fs_result s = Some (Inr fs) \<Longrightarrow> all_done (fs_reads s) = Some fs" for fs
      using jinv unfolding join_inv_def by blast
    have j4: "k < length (fs_reads s) \<Longrightarrow> fs_reads s ! k = Done f \<Longrightarrow> ff_file f = fs_files s ! k" for k f
      using jinv unfolding join_inv_def by blast
    have qs: "set (queue (fs_sem s)) = {k. k < length (fs_reads s) \<and> fs_reads s ! k = Waiting}"
      using inv unfolding sem_inv_def by blast
    have res: "fs_result s' = join_reads (fs_result s) st ((fs_reads s)[i := st])"
      by (rule view(4))
    have not_resolved: "fs_result s \<noteq> Some (Inr fs)" for fs
    proof
      assume "fs_result s = Some (Inr fs)"
      from all_done_nth [OF j3 [OF this]] en show False by simp
    qed
    have "join_inv s'"
      unfolding join_inv_def
    proof (intro conjI allI impI)
      fix err assume none: "fs_result s' = None"
      then have old: "fs_result s = None" and nf: "st \<noteq> Failed err"
        by (auto simp: res join_reads_def split: option.splits read_state.splits)
      show "Failed err \<notin> set (fs_reads s')"
      proof
        assume "Failed err \<in> set (fs_reads s')"
        then obtain k where k: "k < length (fs_reads s)" "fs_reads s' ! k = Failed err"
          by (auto simp: in_set_conv_nth after(1))
        with after(2) [OF k(1)] nf have "fs_reads s ! k = Failed err"
          by (auto simp: st_def split: if_splits)
        with k(1) j1 [OF old, of err] show False by (auto simp: in_set_conv_nth)
      qed
    next
      fix err assume rej: "fs_result s' = Some (Inl err)"
      show "Failed err \<in> set (fs_reads s')"
      proof (cases "fs_result s")
        case None
        with rej have "st = Failed err"
          by (auto simp: res join_reads_def split: option.splits read_state.splits)
        with after(2) [OF en(1)] have "fs_reads s' ! i = Failed err" by (simp add: st_def)
        with en(1) show ?thesis by (auto simp: in_set_conv_nth after(1))
      next
        case (Some r)
        with rej have "fs_result s = Some (Inl err)" by (simp add: res join_reads_def)
        from j2 [OF this] obtain k where k: "k < length (fs_reads s)" "fs_reads s ! k = Failed err"
          by (auto simp: in_set_conv_nth)
        have "k \<noteq> i" using k en by auto
        moreover have "\<not> (\<exists>rest. queue (fs_sem s) = k # rest)"
        proof
          assume "\<exists>rest. queue (fs_sem s) = k # rest"
          then have "k \<in> set (queue (fs_sem s))" by auto
          with qs k show False by simp
        qed
        ultimately have "fs_reads s' ! k = Failed err"
          using after(2) [OF k(1)] k(2) by simp
        with k(1) show ?thesis by (auto simp: in_set_conv_nth after(1))
      qed
    next
      fix fs assume ok: "fs_result s' = Some (Inr fs)"
      have old: "fs_result s = None"
        using ok not_resolved by (cases "fs_result s") (auto simp: res join_reads_def)
      with ok have ad: "all_done ((fs_reads s)[i := st]) = Some fs"
        by (auto simp: res join_reads_def split: option.splits read_state.splits)
      have "queue (fs_sem s) = []"
      proof (cases "queue (fs_sem s)")
        case Nil
        then show ?thesis .
      next
        case (Cons j rest)
        with qs have j: "j < length (fs_reads s)" "fs_reads s ! j = Waiting" by auto
        with en have "j \<noteq> i" by auto
        with all_done_nth [OF ad] j show ?thesis by (auto simp: nth_list_update)
      qed
      then have "fs_reads s' = (fs_reads s)[i := st]" by (simp add: view)
      with ad show "all_done (fs_reads s') = Some fs" by simp
    next
      fix k f assume kf: "k < length (fs_reads s') \<and> fs_reads s' ! k = Done f"
      then have k: "k < length (fs_reads s)" by (simp add: after(1))
      show "ff_file f = fs_files s' ! k"
        using after(2) [OF k] kf j4 [OF k, of f]
        by (cases out) (auto simp: view(1) st_def split: if_splits)
    qed
    then show ?thesis by (simp add: Complete s'_def)
  qed
qed

lemma delivered_step:
  assumes inv: "sem_inv s" and d: "delivered evs s"
  shows "delivered (evs @ [ev]) (fetch_step ev s)"
proof (cases ev)
  case (Complete i out)
  show ?thesis
  proof (cases "i < length (fs_reads s) \<and> fs_reads s ! i = Reading")
    case False
    from fetch_step_disabled [OF this] d show ?thesis
      by (auto simp: Complete delivered_def)
  next
    case True
    then have en: "i < length (fs_reads s)" "fs_reads s ! i = Reading" by simp_all
    note after = reads_after [OF en inv, where out = out]
    show ?thesis
      unfolding delivered_def Complete
    proof (intro allI impI)
      fix k f
      assume kf: "k < length (fs_reads (fetch_step (Complete i out) s)) \<and>
                  fs_reads (fetch_step (Complete i out) s) ! k = Done f"
      then have k: "k < length (fs_reads s)" by (simp add: after(1))
      show "Complete k (Inr (ff_data f)) \<in> set (evs @ [Complete i out])"
        using after(2) [OF k] kf d k
        by (cases out) (auto simp: delivered_def split: if_splits)
    qed
  qed
qed


lemma fetch_run_snoc: "fetch_run (evs @ [ev]) s = fetch_step ev (fetch_run evs s)"
  by (simp add: fetch_run_def)

lemma fetch_reachable:
  "sem_inv (fetch_run evs (fetch_init files)) \<and>
   join_inv (fetch_run evs (fetch_init files)) \<and>
   delivered evs (fetch_run evs (fetch_init files))"
proof (induction evs rule: rev_induct)
  case Nil
  show ?case
    by (simp add: fetch_run_def sem_inv_init join_inv_init delivered_init)
next
  case (snoc ev evs)
  then show ?case
    by (simp add: fetch_run_snoc sem_inv_step join_inv_step delivered_step)
qed

lemma sem_inv_run: "sem_inv s \<Longrightarrow> sem_inv (fetch_run evs s)"
  by (induction evs rule: rev_induct) (simp_all add: fetch_run_snoc sem_inv_step, simp add: fetch_run_def)

lemma fetch_step_files: "fs_files (fetch_step ev s) = fs_files s"
  by (cases ev)
    (auto simp: fetch_step.simps sem_leave_def settle_read_def leave_def Let_def
      split: sum.splits list.splits)

lemma fetch_run_files: "fs_files (fetch_run evs s) = fs_files s"
  by (induction evs rule: rev_induct) (simp_all add: fetch_run_snoc fetch_step_files, simp add: fetch_run_def)

lemma fetch_step_settled:
  "fs_result s = Some r \<Longrightarrow> fs_result (fetch_step ev s) = Some r"
  by (cases ev)
    (auto simp: fetch_step.simps sem_leave_def settle_read_def leave_def Let_def join_reads_def
      split: sum.splits list.splits)

lemma fetch_run_settled:
  "fs_result s = Some r \<Longrightarrow> fs_result (fetch_run evs s) = Some r"
  by (induction evs rule: rev_induct) (simp_all add: fetch_run_snoc fetch_step_settled, simp add: fetch_run_def)

lemma reading_after:
  fixes out :: "rejection + jsval"
  assumes en: "i < length (fs_reads s)" "fs_reads s ! i = Reading" and inv: "sem_inv s"
  shows "reading (fetch_step (Complete i out) s) =
           (if queue (fs_sem s) = [] then reading s - 1 else reading s)"
proof -
  have "sem_inv (fetch_step (Complete i out) s)"
    by (rule sem_inv_step [OF inv])
  then have "int (reading (fetch_step (Complete i out) s)) =
               current (fs_sem (fetch_step (Complete i out) s))"
    by (simp add: sem_inv_def)
  also have "\<dots> = (if queue (fs_sem s) = [] then current (fs_sem s) - 1 else current (fs_sem s))"
    by (simp add: fetch_step_view(2) [OF en inv] split: list.splits)
  also have "current (fs_sem s) = int (reading s)"
    using inv by (simp add: sem_inv_def)
  finally show ?thesis by (auto split: if_splits)
qed


text \<open>
  C8: at every point of every schedule of \<open>fetchFiles\<close>, for a batch of any size (so
  also one of more than ten files), at most \<open>MAX_CONCURRENT_DOWNLOADS\<close> = 10 reads hold a
  permit, and the permits that the semaphore counts as taken are exactly those of the
  reads under way. Whenever a read that holds a permit settles, with a value or with
  any rejection (a remote error or a transport error), its promise is settled and no
  longer holds a permit: the number of reads under way goes down by one, or stays the
  same when the permit passes to the oldest waiting read, and the count of the
  semaphore follows it. Once no read is under way, no permit is taken and no read
  waits.
\<close>

theorem fetchFiles_bounded:
  assumes reach: "s = fetch_run evs (fetch_init files)"
  shows "MAX_CONCURRENT_DOWNLOADS = 10 \<and>
         reading s \<le> MAX_CONCURRENT_DOWNLOADS \<and>
         current (fs_sem s) = int (reading s) \<and>
         (\<forall>i out. i < length (fs_reads s) \<and> fs_reads s ! i = Reading \<longrightarrow>
            fs_reads (fetch_step (Complete i out) s) ! i = settled_state (files ! i) out \<and>
            fs_reads (fetch_step (Complete i out) s) ! i \<noteq> Reading \<and>
            reading (fetch_step (Complete i out) s) =
              (if queue (fs_sem s) = [] then reading s - 1 else reading s) \<and>
            current (fs_sem (fetch_step (Complete i out) s)) =
              int (reading (fetch_step (Complete i out) s))) \<and>
         (reading s = 0 \<longrightarrow> current (fs_sem s) = 0 \<and> queue (fs_sem s) = [])"
proof -
  have inv: "sem_inv s"
    using fetch_reachable [of evs files] by (simp add: reach)
  have files: "fs_files s = files"
    by (simp add: reach fetch_run_files fetch_init_eq)
  have cur: "current (fs_sem s) = int (reading s)"
    and le: "current (fs_sem s) \<le> capacity (fs_sem s)"
    and cap: "capacity (fs_sem s) = int MAX_CONCURRENT_DOWNLOADS"
    and full: "queue (fs_sem s) \<noteq> [] \<longrightarrow> current (fs_sem s) = capacity (fs_sem s)"
    using inv unfolding sem_inv_def by blast+
  have bound: "reading s \<le> MAX_CONCURRENT_DOWNLOADS"
    using cur le cap by simp
  have step: "fs_reads (fetch_step (Complete i out) s) ! i = settled_state (files ! i) out \<and>
            fs_reads (fetch_step (Complete i out) s) ! i \<noteq> Reading \<and>
            reading (fetch_step (Complete i out) s) =
              (if queue (fs_sem s) = [] then reading s - 1 else reading s) \<and>
            current (fs_sem (fetch_step (Complete i out) s)) =
              int (reading (fetch_step (Complete i out) s))"
    if en: "i < length (fs_reads s)" "fs_reads s ! i = Reading" for i out
  proof -
    have "fs_reads (fetch_step (Complete i out) s) ! i = settled_state (files ! i) out"
      using reads_after(2) [OF en inv en(1), of out] by (simp add: files)
    moreover have "sem_inv (fetch_step (Complete i out) s)"
      by (rule sem_inv_step [OF inv])
    then have "current (fs_sem (fetch_step (Complete i out) s)) =
                 int (reading (fetch_step (Complete i out) s))"
      by (simp add: sem_inv_def)
    ultimately show ?thesis
      using reading_after [OF en inv, of out] by simp
  qed
  have idle: "current (fs_sem s) = 0 \<and> queue (fs_sem s) = []" if "reading s = 0"
    using that cur full cap by (auto simp: MAX_CONCURRENT_DOWNLOADS_def)
  from bound cur step idle show ?thesis
    by (simp add: MAX_CONCURRENT_DOWNLOADS_def)
qed

lemma twelve_init:
  "fs_reads (fetch_init twelve_files) = replicate 10 Reading @ replicate 2 Waiting"
  "queue (fs_sem (fetch_init twelve_files)) = [10, 11]"
  by (simp_all add: fetch_init_eq twelve_files_def MAX_CONCURRENT_DOWNLOADS_def upt_rec)

theorem fetchFiles_bounded_witness:
  "MAX_CONCURRENT_DOWNLOADS < length twelve_files \<and>
   reading (fetch_init twelve_files) \<le> MAX_CONCURRENT_DOWNLOADS \<and>
   fs_reads (fetch_step (Complete 0 (Inl timeout_error)) (fetch_init twelve_files)) ! 0 =
     Failed timeout_error \<and>
   reading (fetch_step (Complete 0 (Inl timeout_error)) (fetch_init twelve_files)) =
     reading (fetch_init twelve_files) \<and>
   current (fs_sem (fetch_step (Complete 0 (Inr (JStr ''x''))) (fetch_init twelve_files))) =
     int (reading (fetch_step (Complete 0 (Inr (JStr ''x''))) (fetch_init twelve_files)))"
proof -
  have s: "fetch_init twelve_files = fetch_run [] (fetch_init twelve_files)"
    by (simp add: fetch_run_def)
  note inst = fetchFiles_bounded [OF s]
  have en: "0 < length (fs_reads (fetch_init twelve_files))"
    "fs_reads (fetch_init twelve_files) ! 0 = Reading"
    by (simp_all add: twelve_init nth_append)
  have len: "MAX_CONCURRENT_DOWNLOADS < length twelve_files"
    by (simp add: MAX_CONCURRENT_DOWNLOADS_def twelve_files_def)
  from inst en have
    "fs_reads (fetch_step (Complete 0 (Inl timeout_error)) (fetch_init twelve_files)) ! 0 =
       settled_state (twelve_files ! 0) (Inl timeout_error)"
    "reading (fetch_step (Complete 0 (Inl timeout_error)) (fetch_init twelve_files)) =
      (if queue (fs_sem (fetch_init twelve_files)) = [] then reading (fetch_init twelve_files) - 1
       else reading (fetch_init twelve_files))"
    "current (fs_sem (fetch_step (Complete 0 (Inr (JStr ''x''))) (fetch_init twelve_files))) =
       int (reading (fetch_step (Complete 0 (Inr (JStr ''x''))) (fetch_init twelve_files)))"
    by blast+
  with inst len show ?thesis
    by (simp add: twelve_init)
qed


text \<open>
  C3: at every point of every schedule of \<open>fetchFiles\<close>, once a read has failed the result
  of \<open>fetchFiles\<close> is a rejection with the error of a failed read, never a list; when that
  read is the only one that failed, the error is its own. The error is the one of the
  read that fails first: a failure that arrives while the result is pending rejects it,
  and nothing that happens later changes it. A list is returned only when every read
  has succeeded, and then it has one element per file.
\<close>

theorem fetchFiles_all_or_nothing:
  assumes reach: "s = fetch_run evs (fetch_init files)"
  shows "(\<forall>i err. i < length (fs_reads s) \<and> fs_reads s ! i = Failed err \<longrightarrow>
            (\<exists>err'. fs_result s = Some (Inl err') \<and> Failed err' \<in> set (fs_reads s)) \<and>
            (\<forall>fs. fs_result s \<noteq> Some (Inr fs)) \<and>
            ((\<forall>k e. k < length (fs_reads s) \<and> fs_reads s ! k = Failed e \<longrightarrow> k = i) \<longrightarrow>
               fs_result s = Some (Inl err))) \<and>
         (\<forall>i err. i < length (fs_reads s) \<and> fs_reads s ! i = Reading \<and> fs_result s = None \<longrightarrow>
            (\<forall>evs'. fs_result (fetch_run evs' (fetch_step (Complete i (Inl err)) s)) =
                      Some (Inl err))) \<and>
         (\<forall>fs. fs_result s = Some (Inr fs) \<longrightarrow>
            length fs = length files \<and> (\<forall>k < length files. fs_reads s ! k = Done (fs ! k)))"
proof -
  have inv: "sem_inv s" and jinv: "join_inv s"
    using fetch_reachable [of evs files] by (simp_all add: reach)
  have len: "length (fs_reads s) = length files"
    using inv by (simp add: sem_inv_def reach fetch_run_files fetch_init_eq)
  have j1: "fs_result s = None \<Longrightarrow> Failed err \<notin> set (fs_reads s)" for err
    using jinv unfolding join_inv_def by blast
  have j2: "fs_result s = Some (Inl err) \<Longrightarrow> Failed err \<in> set (fs_reads s)" for err
    using jinv unfolding join_inv_def by blast
  have j3: "fs_result s = Some (Inr fs) \<Longrightarrow> all_done (fs_reads s) = Some fs" for fs
    using jinv unfolding join_inv_def by blast
  have failed: "(\<exists>err'. fs_result s = Some (Inl err') \<and> Failed err' \<in> set (fs_reads s)) \<and>
            (\<forall>fs. fs_result s \<noteq> Some (Inr fs)) \<and>
            ((\<forall>k e. k < length (fs_reads s) \<and> fs_reads s ! k = Failed e \<longrightarrow> k = i) \<longrightarrow>
               fs_result s = Some (Inl err))"
    if i: "i < length (fs_reads s)" "fs_reads s ! i = Failed err" for i err
  proof -
    have mem: "Failed err \<in> set (fs_reads s)"
      using i by (auto simp: in_set_conv_nth)
    have no: "fs_result s \<noteq> Some (Inr fs)" for fs
    proof
      assume "fs_result s = Some (Inr fs)"
      from all_done_nth [OF j3 [OF this]] i show False by simp
    qed
    from mem j1 [of err] obtain r' where r': "fs_result s = Some r'"
      by (cases "fs_result s") auto
    with no obtain err' where r: "fs_result s = Some (Inl err')"
      by (cases r') auto
    have only: "fs_result s = Some (Inl err)"
      if "\<forall>k e. k < length (fs_reads s) \<and> fs_reads s ! k = Failed e \<longrightarrow> k = i"
    proof -
      from j2 [OF r] obtain k where "k < length (fs_reads s)" "fs_reads s ! k = Failed err'"
        by (auto simp: in_set_conv_nth)
      with that i have "err' = err" by auto
      with r show ?thesis by simp
    qed
    from r j2 [OF r] no only show ?thesis by blast
  qed
  have first: "fs_result (fetch_run evs' (fetch_step (Complete i (Inl err)) s)) = Some (Inl err)"
    if "i < length (fs_reads s)" "fs_reads s ! i = Reading" "fs_result s = None" for i err evs'
  proof -
    have "fs_result (fetch_step (Complete i (Inl err)) s) = Some (Inl err)"
      using fetch_step_view(4) [OF that(1,2) inv, of "Inl err"] that(3)
      by (simp add: join_reads_def)
    then show ?thesis by (rule fetch_run_settled)
  qed
  have whole: "length fs = length files \<and> (\<forall>k < length files. fs_reads s ! k = Done (fs ! k))"
    if "fs_result s = Some (Inr fs)" for fs
    using all_done_nth [OF j3 [OF that]] by (simp add: len)
  from failed first whole show ?thesis by blast
qed

lemma two_failed:
  "fs_reads (fetch_run [Complete 1 (Inr (JStr ''B'')), Complete 0 (Inl timeout_error)]
      (fetch_init two_files)) =
     [Failed timeout_error, Done \<lparr>ff_file = sample_ref ''b.md'', ff_data = JStr ''B''\<rparr>]"
  by code_simp

theorem fetchFiles_all_or_nothing_witness:
  "fs_reads (fetch_run [Complete 1 (Inr (JStr ''B'')), Complete 0 (Inl timeout_error)]
      (fetch_init two_files)) ! 0 = Failed timeout_error \<and>
   fs_reads (fetch_run [Complete 1 (Inr (JStr ''B'')), Complete 0 (Inl timeout_error)]
      (fetch_init two_files)) ! 1 = Done \<lparr>ff_file = sample_ref ''b.md'', ff_data = JStr ''B''\<rparr> \<and>
   fs_result (fetch_run [Complete 1 (Inr (JStr ''B'')), Complete 0 (Inl timeout_error)]
      (fetch_init two_files)) = Some (Inl timeout_error)"
proof -
  let ?s = "fetch_run [Complete 1 (Inr (JStr ''B'')), Complete 0 (Inl timeout_error)]
      (fetch_init two_files)"
  note inst = fetchFiles_all_or_nothing [OF refl, of "[Complete 1 (Inr (JStr ''B'')), Complete 0 (Inl timeout_error)]" two_files]
  have i: "0 < length (fs_reads ?s)" "fs_reads ?s ! 0 = Failed timeout_error"
    unfolding two_failed by simp_all
  have only: "\<forall>k e. k < length (fs_reads ?s) \<and> fs_reads ?s ! k = Failed e \<longrightarrow> k = 0"
    unfolding two_failed by (auto simp: nth_Cons split: nat.splits)
  from inst i only have "fs_result ?s = Some (Inl timeout_error)"
    by blast
  moreover have "fs_reads ?s ! 1 = Done \<lparr>ff_file = sample_ref ''b.md'', ff_data = JStr ''B''\<rparr>"
    unfolding two_failed by simp
  ultimately show ?thesis using i by blast
qed

text \<open>
  C10: when \<open>fetchFiles\<close> succeeds, whatever the order in which the reads completed, the
  result has one element per input file, and its \<open>i\<close>-th element holds the \<open>i\<close>-th input
  file together with the data that the read of that file delivered.
\<close>

theorem fetchFiles_order:
  assumes reach: "s = fetch_run evs (fetch_init files)"
    and ok: "fs_result s = Some (Inr fs)"
  shows "length fs = length files \<and>
         (\<forall>i < length files.
            ff_file (fs ! i) = files ! i \<and> Complete i (Inr (ff_data (fs ! i))) \<in> set evs)"
proof -
  have inv: "sem_inv s" and jinv: "join_inv s" and d: "delivered evs s"
    using fetch_reachable [of evs files] by (simp_all add: reach)
  have files: "fs_files s = files"
    by (simp add: reach fetch_run_files fetch_init_eq)
  have len: "length (fs_reads s) = length files"
    using inv by (simp add: sem_inv_def files)
  have "all_done (fs_reads s) = Some fs"
    using jinv ok unfolding join_inv_def by blast
  from all_done_nth [OF this]
  have lfs: "length fs = length files"
    and nth: "\<And>i. i < length files \<Longrightarrow> fs_reads s ! i = Done (fs ! i)"
    by (simp_all add: len)
  have "ff_file (fs ! i) = files ! i \<and> Complete i (Inr (ff_data (fs ! i))) \<in> set evs"
    if "i < length files" for i
  proof -
    have "ff_file (fs ! i) = fs_files s ! i"
      using jinv nth [OF that] that len unfolding join_inv_def by auto
    moreover have "Complete i (Inr (ff_data (fs ! i))) \<in> set evs"
      using d nth [OF that] that len unfolding delivered_def by auto
    ultimately show ?thesis by (simp add: files)
  qed
  with lfs show ?thesis by simp
qed

lemma two_fetched:
  "fs_result (fetch_run [Complete 1 (Inr (JStr ''B'')), Complete 0 (Inr (JStr ''A''))]
      (fetch_init two_files)) =
     Some (Inr [\<lparr>ff_file = sample_ref ''a.md'', ff_data = JStr ''A''\<rparr>,
                \<lparr>ff_file = sample_ref ''b.md'', ff_data = JStr ''B''\<rparr>])"
  by code_simp

theorem fetchFiles_order_witness:
  "fs_result (fetch_run [Complete 1 (Inr (JStr ''B'')), Complete 0 (Inr (JStr ''A''))]
      (fetch_init two_files)) =
     Some (Inr [\<lparr>ff_file = sample_ref ''a.md'', ff_data = JStr ''A''\<rparr>,
                \<lparr>ff_file = sample_ref ''b.md'', ff_data = JStr ''B''\<rparr>]) \<and>
   length [\<lparr>ff_file = sample_ref ''a.md'', ff_data = JStr ''A''\<rparr>,
           \<lparr>ff_file = sample_ref ''b.md'', ff_data = JStr ''B''\<rparr>] = length two_files \<and>
   ff_file ([\<lparr>ff_file = sample_ref ''a.md'', ff_data = JStr ''A''\<rparr>,
             \<lparr>ff_file = sample_ref ''b.md'', ff_data = JStr ''B''\<rparr>] ! 0) = two_files ! 0 \<and>
   ff_file ([\<lparr>ff_file = sample_ref ''a.md'', ff_data = JStr ''A''\<rparr>,
             \<lparr>ff_file = sample_ref ''b.md'', ff_data = JStr ''B''\<rparr>] ! 1) = two_files ! 1"
proof -
  note inst = fetchFiles_order [OF refl two_fetched]
  have len: "length two_files = 2" by (simp add: two_files_def)
  from inst have l: "length [\<lparr>ff_file = sample_ref ''a.md'', ff_data = JStr ''A''\<rparr>,
           \<lparr>ff_file = sample_ref ''b.md'', ff_data = JStr ''B''\<rparr>] = length two_files"
    by (rule conjunct1)
  from inst [THEN conjunct2, rule_format, of 0] inst [THEN conjunct2, rule_format, of 1] len
  have "ff_file ([\<lparr>ff_file = sample_ref ''a.md'', ff_data = JStr ''A''\<rparr>,
             \<lparr>ff_file = sample_ref ''b.md'', ff_data = JStr ''B''\<rparr>] ! 0) = two_files ! 0"
    and "ff_file ([\<lparr>ff_file = sample_ref ''a.md'', ff_data = JStr ''A''\<rparr>,
             \<lparr>ff_file = sample_ref ''b.md'', ff_data = JStr ''B''\<rparr>] ! 1) = two_files ! 1"
    by simp_all
  with two_fetched l show ?thesis by blast
qed

section \<open>Constructing the client\<close>

text \<open>
  C9: the constructor, which is a function of the configuration and the \<^verbatim>\<open>proxied\<close> flag
  alone and makes no request, fails with an error when the repository is missing (or
  \<^verbatim>\<open>null\<close>) and the client is not proxied; it fails whenever the editorial workflow is selected, and
  with the \<^verbatim>\<open>EditorialWorkflowError\<close> when the repository check passes. In every other
  case, in particular for a proxied client without a repository, it succeeds, and the
  object holds no \<^verbatim>\<open>API\<close> yet.
\<close>

theorem GitLab_constructor_validates:
  "(\<not> proxied \<and> nullish (backend_repo cfg) \<longrightarrow>
      (\<exists>msg. GitLab_constructor cfg proxied = Inl (Error msg))) \<and>
   (publish_mode cfg = StrValue EDITORIAL_WORKFLOW \<longrightarrow>
      (\<exists>err. GitLab_constructor cfg proxied = Inl err)) \<and>
   (publish_mode cfg = StrValue EDITORIAL_WORKFLOW \<and> (proxied \<or> \<not> nullish (backend_repo cfg)) \<longrightarrow>
      (\<exists>msg. GitLab_constructor cfg proxied = Inl (EditorialWorkflowError msg False))) \<and>
   (publish_mode cfg \<noteq> StrValue EDITORIAL_WORKFLOW \<and> (proxied \<or> \<not> nullish (backend_repo cfg)) \<longrightarrow>
      (\<exists>g. GitLab_constructor cfg proxied = Inr g \<and> gl_api g = None))"
  by (simp add: GitLab_constructor_def)

theorem GitLab_constructor_validates_witness:
  "(\<exists>msg. GitLab_constructor (sample_config NotSet NotSet) False = Inl (Error msg)) \<and>
   (\<exists>msg. GitLab_constructor (sample_config NullValue NotSet) False = Inl (Error msg)) \<and>
   (\<exists>msg. GitLab_constructor (sample_config (StrValue ''owner/repo'') (StrValue ''editorial_workflow''))
             False = Inl (EditorialWorkflowError msg False)) \<and>
   (\<exists>err. GitLab_constructor (sample_config NotSet (StrValue ''editorial_workflow'')) False = Inl err) \<and>
   (\<exists>g. GitLab_constructor (sample_config NotSet NotSet) True = Inr g \<and> gl_api g = None)"
  using GitLab_constructor_validates [of False "sample_config NotSet NotSet"]
    GitLab_constructor_validates [of False "sample_config NullValue NotSet"]
    GitLab_constructor_validates
      [of False "sample_config (StrValue ''owner/repo'') (StrValue ''editorial_workflow'')"]
    GitLab_constructor_validates [of False "sample_config NotSet (StrValue ''editorial_workflow'')"]
    GitLab_constructor_validates [of True "sample_config NotSet NotSet"]
  by (simp add: sample_config_def EDITORIAL_WORKFLOW_def)

end
